theory Spec2Isabelle
  imports Main "HOL-Library.Char_ord" "HOL-Library.List_Lexorder"
    "HOL-Library.Product_Lexorder" "HOL-Library.Multiset"
begin

section \<open>Text, character classes and literal matching\<close>

text \<open>
  The tool \<^verbatim>\<open>generate-common.py\<close> works on Python strings. A file's text is a
  \<^typ>\<open>string\<close> here, one \<^typ>\<open>char\<close> per character, offsets counted from 0. The
  model covers ASCII text: the classes \<^verbatim>\<open>\w\<close> and \<^verbatim>\<open>\s\<close> of Python's \<^verbatim>\<open>re\<close> and
  \<^verbatim>\<open>str.isupper\<close> are written out for the characters below 0x80, and a character at
  or above 0x80 belongs to none of them.
\<close>

definition is_word :: "char \<Rightarrow> bool" where
  \<comment> \<open>\<^verbatim>\<open>\w\<close> (and \<^verbatim>\<open>[\w\d]\<close>, since every digit is a word character)\<close>
  "is_word c \<longleftrightarrow>
     c \<in> set (''abcdefghijklmnopqrstuvwxyz'' @ ''ABCDEFGHIJKLMNOPQRSTUVWXYZ'' @ ''0123456789_'')"

definition is_space :: "char \<Rightarrow> bool" where
  \<comment> \<open>\<^verbatim>\<open>\s\<close> on a \<^verbatim>\<open>str\<close> pattern: blank, \<^verbatim>\<open>\t \n \v \f \r\<close> and the separators 0x1C to 0x1F\<close>
  "is_space c \<longleftrightarrow>
     c \<in> set [CHR '' '', CHR 0x09, CHR 0x0A, CHR 0x0B, CHR 0x0C, CHR 0x0D,
               CHR 0x1C, CHR 0x1D, CHR 0x1E, CHR 0x1F]"

definition isupper :: "char \<Rightarrow> bool" where
  \<comment> \<open>\<^verbatim>\<open>str.isupper\<close> on a one-character string\<close>
  "isupper c \<longleftrightarrow> c \<in> set ''ABCDEFGHIJKLMNOPQRSTUVWXYZ''"

fun strip_prefix :: "string \<Rightarrow> string \<Rightarrow> string option" where
  \<comment> \<open>a literal piece of a pattern: the text after it, when the text starts with it\<close>
  "strip_prefix [] s = Some s"
| "strip_prefix (p # ps) [] = None"
| "strip_prefix (p # ps) (c # cs) = (if p = c then strip_prefix ps cs else None)"

section \<open>The Declaration Matcher: \<^verbatim>\<open>type_pattern\<close>\<close>

definition header :: string where
  \<comment> \<open>the five annotation lines of \<^verbatim>\<open>type_pattern\<close>\<close>
  "header =
     ''#[cfg_attr(feature = \"derive_debug\", derive(Debug))]\<newline>'' @
     ''#[cfg_attr(feature = \"derive_default\", derive(Default))]\<newline>'' @
     ''#[cfg_attr(feature = \"derive_serde\", derive(Serialize, Deserialize))]\<newline>'' @
     ''#[cfg_attr(feature = \"derive_clone\", derive(Clone))]\<newline>'' @
     ''#[cfg_attr(feature = \"derive_partial_eq\", derive(PartialEq))]\<newline>''"

definition footer :: string where
  \<comment> \<open>the closing idiom \<^verbatim>\<open>\t\tOk(())\n\t}\n}\n\<close>\<close>
  "footer = [CHR 0x09, CHR 0x09] @ ''Ok(())\<newline>'' @ [CHR 0x09] @ ''}\<newline>}\<newline>''"

fun find_footer :: "string \<Rightarrow> string option" where
  \<comment> \<open>the lazy \<^verbatim>\<open>.*?\<close> (with DOTALL) before the closing idiom: the text after the first
      closing idiom\<close>
  "find_footer [] = None"
| "find_footer (c # cs) =
     (case strip_prefix footer (c # cs) of
        Some r \<Rightarrow> Some r
      | None \<Rightarrow> find_footer cs)"

definition type_match_at :: "string \<Rightarrow> (string \<times> string) option" where
  \<comment> \<open>\<^verbatim>\<open>type_pattern\<close> tried at the start of the text: group 2 and the text after the
      match. The greedy \<^verbatim>\<open>\w+\<close> and \<^verbatim>\<open>\s+\<close> are each followed by a character outside
      their class, and the closing idiom starts with a tab, so backtracking into them never
      succeeds: the longest run is the only candidate.\<close>
  "type_match_at s =
     (case strip_prefix ''\<newline>\<newline>// '' s of None \<Rightarrow> None | Some s1 \<Rightarrow>
      if takeWhile is_word s1 = [] then None else
      case strip_prefix '' ...\<newline>'' (dropWhile is_word s1) of None \<Rightarrow> None | Some s2 \<Rightarrow>
      case strip_prefix header s2 of None \<Rightarrow> None | Some s3 \<Rightarrow>
      case (case strip_prefix ''pub struct'' s3 of Some t \<Rightarrow> Some t
            | None \<Rightarrow> strip_prefix ''pub enum'' s3) of None \<Rightarrow> None | Some s4 \<Rightarrow>
      if takeWhile is_space s4 = [] then None else
      if takeWhile is_word (dropWhile is_space s4) = [] then None else
      case find_footer (dropWhile is_word (dropWhile is_space s4)) of None \<Rightarrow> None
      | Some rest \<Rightarrow> Some (takeWhile is_word s1, rest))"

record type_match =
  m_start :: nat
  m_end :: nat
  m_name :: string
  m_text :: string

definition mk_match :: "nat \<Rightarrow> string \<Rightarrow> string \<Rightarrow> string \<Rightarrow> type_match" where
  \<comment> \<open>the match object for a match at offset \<open>pos\<close> of text \<open>s\<close> that leaves \<open>rest\<close>\<close>
  "mk_match pos s name rest =
     \<lparr>m_start = pos, m_end = pos + (length s - length rest), m_name = name,
      m_text = take (length s - length rest) s\<rparr>"

lemma strip_prefix_Some: "strip_prefix p s = Some r \<longleftrightarrow> s = p @ r"
  by (induction p s rule: strip_prefix.induct) auto

lemma strip_prefix_append [simp]: "strip_prefix p (p @ r) = Some r"
  by (simp add: strip_prefix_Some)

lemma find_footer_suffix: "find_footer s = Some r \<Longrightarrow> \<exists>m. s = m @ footer @ r"
proof (induction s)
  case Nil
  then show ?case by simp
next
  case (Cons c cs)
  show ?case
  proof (cases "strip_prefix footer (c # cs)")
    case None
    with Cons obtain m where "cs = m @ footer @ r" by auto
    then have "c # cs = (c # m) @ footer @ r" by simp
    then show ?thesis by blast
  next
    case (Some t)
    with Cons.prems have "c # cs = [] @ footer @ r" by (simp add: strip_prefix_Some)
    then show ?thesis by blast
  qed
qed

lemma find_footer_length: "find_footer s = Some r \<Longrightarrow> length r < length s"
  by (auto dest!: find_footer_suffix simp: footer_def)

lemma type_match_at_decomp:
  assumes "type_match_at s = Some (name, rest)"
  shows "\<exists>kw mid. s = ''\<newline>\<newline>// '' @ name @ '' ...\<newline>'' @ header @ kw @ mid @ footer @ rest
           \<and> (kw = ''pub struct'' \<or> kw = ''pub enum'') \<and> name \<noteq> [] \<and> (\<forall>c\<in>set name. is_word c)"
proof -
  from assms obtain s1 s2 s3 s4 kw where
    s1: "s = ''\<newline>\<newline>// '' @ s1" and
    nm: "name = takeWhile is_word s1" "name \<noteq> []" and
    s2: "dropWhile is_word s1 = '' ...\<newline>'' @ s2" and
    s3: "s2 = header @ s3" and
    s4: "s3 = kw @ s4" "kw = ''pub struct'' \<or> kw = ''pub enum''" and
    ff: "find_footer (dropWhile is_word (dropWhile is_space s4)) = Some rest"
    by (auto simp: type_match_at_def strip_prefix_Some simp del: append.simps
        split: option.splits if_splits)
  from ff obtain m where m: "dropWhile is_word (dropWhile is_space s4) = m @ footer @ rest"
    by (auto dest: find_footer_suffix)
  have "s4 = takeWhile is_space s4 @ takeWhile is_word (dropWhile is_space s4)
               @ dropWhile is_word (dropWhile is_space s4)"
    by simp
  with m have s4': "s4 = (takeWhile is_space s4 @ takeWhile is_word (dropWhile is_space s4) @ m)
                      @ footer @ rest"
    by simp
  have "s1 = name @ dropWhile is_word s1"
    using nm by simp
  with s1 s2 s3 s4(1) s4' have
    "s = ''\<newline>\<newline>// '' @ name @ '' ...\<newline>'' @ header @ kw
           @ (takeWhile is_space s4 @ takeWhile is_word (dropWhile is_space s4) @ m)
           @ footer @ rest"
    by (metis append.assoc)
  moreover have "\<forall>c\<in>set name. is_word c"
    using nm(1) by (auto dest: set_takeWhileD)
  ultimately show ?thesis
    using s4(2) nm(2) by blast
qed

lemma type_match_at_length:
  assumes "type_match_at s = Some r"
  shows "length (snd r) < length s"
proof -
  from assms have "type_match_at s = Some (fst r, snd r)" by simp
  from type_match_at_decomp [OF this] show ?thesis by auto
qed

function finditer_types :: "nat \<Rightarrow> string \<Rightarrow> type_match list" where
  \<comment> \<open>\<^verbatim>\<open>type_pattern.finditer\<close> on the text that starts at offset \<open>pos\<close> of the file:
      the leftmost match, then the search goes on where the match ended\<close>
  "finditer_types pos [] = []"
| "finditer_types pos (c # cs) =
     (case type_match_at (c # cs) of
        None \<Rightarrow> finditer_types (Suc pos) cs
      | Some r \<Rightarrow>
          mk_match pos (c # cs) (fst r) (snd r)
            # finditer_types (pos + (length (c # cs) - length (snd r))) (snd r))"
  by pat_completeness auto
termination
  by (relation "measure (\<lambda>(pos, s). length s)") (auto dest: type_match_at_length)

section \<open>The Usage Counter: \<^verbatim>\<open>type_usage_patterns\<close> and \<^verbatim>\<open>extract_type\<close>\<close>

definition usage_alt :: "string \<Rightarrow> string \<Rightarrow> string \<Rightarrow> (string \<times> string) option" where
  \<comment> \<open>one alternative of group 1: a literal, \<^verbatim>\<open>[\w\d]+\<close>, a literal; the group and the text after\<close>
  "usage_alt pre post t =
     (case strip_prefix pre t of None \<Rightarrow> None | Some t1 \<Rightarrow>
      if takeWhile is_word t1 = [] then None else
      case strip_prefix post (dropWhile is_word t1) of None \<Rightarrow> None
      | Some t2 \<Rightarrow> Some (pre @ takeWhile is_word t1 @ post, t2))"

definition usage_tail :: "string \<Rightarrow> string option" where
  \<comment> \<open>the trailing \<^verbatim>\<open>\s*,\<close>\<close>
  "usage_tail t =
     (case dropWhile is_space t of [] \<Rightarrow> None
      | c # r \<Rightarrow> if c = CHR '','' then Some r else None)"

fun first_alt :: "(string \<times> string) list \<Rightarrow> string \<Rightarrow> (string \<times> string) option" where
  \<comment> \<open>the alternatives in their order: the first one after which \<^verbatim>\<open>\s*,\<close> matches\<close>
  "first_alt [] t = None"
| "first_alt (a # alts) t =
     (case usage_alt (fst a) (snd a) t of
        None \<Rightarrow> first_alt alts t
      | Some r \<Rightarrow>
          (case usage_tail (snd r) of
             None \<Rightarrow> first_alt alts t
           | Some rest \<Rightarrow> Some (fst r, rest)))"

definition usage_rest :: "string \<Rightarrow> (string \<times> string) option" where
  \<comment> \<open>what follows the colon:
      \<^verbatim>\<open>\s*([\w\d]+|Option<[\w\d]+>|Vec<[\w\d]+>|Option<Vec<[\w\d]+>>)\s*,\<close>\<close>
  "usage_rest s =
     first_alt [([], []), (''Option<'', ''>''), (''Vec<'', ''>''), (''Option<Vec<'', ''>>'')]
       (dropWhile is_space s)"

fun usage_match_from :: "string \<Rightarrow> (string \<times> string) option" where
  \<comment> \<open>\<^verbatim>\<open>[^/]*?:\<close> and the rest, tried at a line start: the lazy star stops at the first
      colon after which the rest matches, and never passes a slash\<close>
  "usage_match_from [] = None"
| "usage_match_from (c # cs) =
     (case (if c = CHR '':'' then usage_rest cs else None) of
        Some r \<Rightarrow> Some r
      | None \<Rightarrow> if c = CHR ''/'' then None else usage_match_from cs)"

lemma usage_tail_length: "usage_tail t = Some r \<Longrightarrow> length r < length t"
proof -
  assume "usage_tail t = Some r"
  then have "dropWhile is_space t = CHR '','' # r"
    by (auto simp: usage_tail_def split: list.splits if_splits)
  then have "length (dropWhile is_space t) = Suc (length r)"
    by simp
  then show ?thesis
    using length_dropWhile_le [of is_space t] by simp
qed

lemma usage_alt_length: "usage_alt pre post t = Some r \<Longrightarrow> length (snd r) \<le> length t"
proof -
  assume "usage_alt pre post t = Some r"
  then obtain t1 where "t = pre @ t1" "dropWhile is_word t1 = post @ snd r"
    by (auto simp: usage_alt_def strip_prefix_Some split: option.splits if_splits)
  then show ?thesis
    using length_dropWhile_le [of is_word t1] by simp
qed

lemma first_alt_length: "first_alt alts t = Some r \<Longrightarrow> length (snd r) < length t"
proof (induction alts)
  case Nil
  then show ?case by simp
next
  case (Cons a alts)
  then show ?case
    by (fastforce split: option.splits dest: usage_alt_length usage_tail_length)
qed

lemma usage_rest_length: "usage_rest s = Some r \<Longrightarrow> length (snd r) < length s"
  unfolding usage_rest_def
  using length_dropWhile_le [of is_space s] by (fastforce dest: first_alt_length)

lemma usage_match_from_length: "usage_match_from s = Some r \<Longrightarrow> length (snd r) < length s"
proof (induction s)
  case Nil
  then show ?case by simp
next
  case (Cons c cs)
  then show ?case
    by (fastforce split: option.splits if_splits dest: usage_rest_length)
qed

function usage_finditer :: "bool \<Rightarrow> string \<Rightarrow> string list" where
  \<comment> \<open>group 1 of every match of \<^verbatim>\<open>type_usage_patterns.finditer\<close>; \<open>bol\<close> says that the text
      starts a line (\<^verbatim>\<open>(?m)^\<close>: the start of the file or the character after a newline).
      A match ends with its comma, so the search resumes inside a line.\<close>
  "usage_finditer bol [] = []"
| "usage_finditer bol (c # cs) =
     (case (if bol then usage_match_from (c # cs) else None) of
        None \<Rightarrow> usage_finditer (c = CHR ''\<newline>'') cs
      | Some r \<Rightarrow> fst r # usage_finditer False (snd r))"
  by pat_completeness auto
termination
  by (relation "measure (\<lambda>(bol, s). length s)")
    (auto simp del: usage_match_from.simps split: if_splits dest: usage_match_from_length)

definition extract_at :: "string \<Rightarrow> string option" where
  \<comment> \<open>\<^verbatim>\<open>(\w+)(?:>)*,?$\<close> tried at the start of the text; \<^verbatim>\<open>$\<close> is the end of the text or
      the place before a final newline\<close>
  "extract_at s =
     (let r = dropWhile (\<lambda>c. c = CHR ''>'') (dropWhile is_word s);
          r' = (case r of [] \<Rightarrow> r | c # t \<Rightarrow> if c = CHR '','' then t else r)
      in if takeWhile is_word s \<noteq> [] \<and> (r' = [] \<or> r' = ''\<newline>'')
         then Some (takeWhile is_word s) else None)"

fun extract_type_of :: "string \<Rightarrow> string option" where
  \<comment> \<open>\<^verbatim>\<open>extract_type\<close>: \<^verbatim>\<open>re.search\<close> takes the leftmost place where the pattern matches\<close>
  "extract_type_of [] = None"
| "extract_type_of (c # cs) =
     (case extract_at (c # cs) of Some w \<Rightarrow> Some w | None \<Rightarrow> extract_type_of cs)"

definition type_usages :: "string \<Rightarrow> string list" where
  \<comment> \<open>the list \<^verbatim>\<open>type_usages\<close> of one file: the base type of every usage match\<close>
  "type_usages text =
     List.map_filter
       (\<lambda>type_str. case extract_type_of type_str of
            None \<Rightarrow> None
          | Some base_type \<Rightarrow> if base_type \<noteq> [] then Some base_type else None)
       (usage_finditer True text)"

section \<open>The Catalog Builder: \<^verbatim>\<open>scan_rust_files\<close>\<close>

record StructMatch =
  filename :: string
  content :: string
  start_pos :: nat
  end_pos :: nat
  usage_count :: nat

text \<open>
  A directory is the list of its files in the order \<^verbatim>\<open>os.listdir\<close> gives them, each
  with its text; every file is readable and writable text. A Python \<^verbatim>\<open>dict\<close> whose
  iteration order the code uses is an association list in insertion order.
\<close>

type_synonym directory = "(string \<times> string) list"

type_synonym type_locations = "(string \<times> StructMatch list) list"

fun dict_append :: "'k \<Rightarrow> 'v \<Rightarrow> ('k \<times> 'v list) list \<Rightarrow> ('k \<times> 'v list) list" where
  \<comment> \<open>\<^verbatim>\<open>d[k].append(v)\<close> on a \<^verbatim>\<open>defaultdict(list)\<close>\<close>
  "dict_append k v [] = [(k, [v])]"
| "dict_append k v (e # d) =
     (if fst e = k then (k, snd e @ [v]) # d else e # dict_append k v d)"

definition endswith :: "string \<Rightarrow> string \<Rightarrow> bool" where
  "endswith s suf \<longleftrightarrow> length suf \<le> length s \<and> drop (length s - length suf) s = suf"

definition first_isupper :: "string \<Rightarrow> bool" where
  \<comment> \<open>\<^verbatim>\<open>type_name[0].isupper()\<close>; a matched name is never empty\<close>
  "first_isupper name = (case name of [] \<Rightarrow> False | c # cs \<Rightarrow> isupper c)"

definition process_match ::
  "string \<Rightarrow> string list \<Rightarrow> type_locations \<times> StructMatch list \<Rightarrow> type_match
     \<Rightarrow> type_locations \<times> StructMatch list" where
  \<comment> \<open>the body of the loop over \<^verbatim>\<open>type_matches\<close>\<close>
  "process_match fname usages acc m =
     (let struct_match = \<lparr>filename = fname, content = m_text m, start_pos = m_start m,
                           end_pos = m_end m, usage_count = 0\<rparr>
      in if first_isupper (m_name m)
         then (dict_append (m_name m)
                 (struct_match\<lparr>usage_count := count_list usages (m_name m)\<rparr>) (fst acc),
               snd acc)
         else (fst acc, snd acc @ [struct_match]))"

definition scan_file ::
  "type_locations \<times> (string \<rightharpoonup> string) \<times> StructMatch list \<Rightarrow> string \<times> string
     \<Rightarrow> type_locations \<times> (string \<rightharpoonup> string) \<times> StructMatch list" where
  \<comment> \<open>the body of the loop over \<^verbatim>\<open>rust_files\<close>\<close>
  "scan_file acc f =
     (let r = foldl (process_match (fst f) (type_usages (snd f)))
                (fst acc, snd (snd acc)) (finditer_types 0 (snd f))
      in (fst r, (fst (snd acc))(fst f \<mapsto> snd f), snd r))"

definition scan_rust_files ::
  "directory \<Rightarrow> type_locations \<times> (string \<rightharpoonup> string) \<times> StructMatch list" where
  "scan_rust_files fs =
     foldl scan_file ([], Map.empty, []) (filter (\<lambda>f. endswith (fst f) ''.rs'') fs)"

section \<open>The threshold: the value \<^verbatim>\<open>print_summary\<close> returns\<close>

definition total_usage :: "StructMatch list \<Rightarrow> int" where
  "total_usage matches = int (sum_list (map usage_count matches))"

definition print_summary ::
  "type_locations \<Rightarrow> StructMatch list \<Rightarrow> int \<Rightarrow> type_locations option" where
  \<comment> \<open>\<^verbatim>\<open>frequent_types\<close>, or \<^verbatim>\<open>None\<close> from the bare \<^verbatim>\<open>return\<close> when the dict is empty;
      the printing is left out\<close>
  "print_summary locations lowercase_matches typecount =
     (let frequent_types = filter (\<lambda>e. typecount \<le> total_usage (snd e)) locations
      in if frequent_types = [] then None else Some frequent_types)"

section \<open>The Shared Module Writer: \<^verbatim>\<open>generate_common_file\<close>\<close>

datatype error = AttributeError | IndexError | KeyError

definition name_line_at :: "string \<Rightarrow> (string \<times> string) option" where
  \<comment> \<open>\<^verbatim>\<open>// (\w+) \.\.\.\n\<close> tried at the start of the text: the name and the text after\<close>
  "name_line_at s =
     (case strip_prefix ''// '' s of None \<Rightarrow> None | Some s1 \<Rightarrow>
      if takeWhile is_word s1 = [] then None else
      case strip_prefix '' ...\<newline>'' (dropWhile is_word s1) of None \<Rightarrow> None
      | Some r \<Rightarrow> Some (takeWhile is_word s1, r))"

lemma name_line_at_length: "name_line_at s = Some r \<Longrightarrow> length (snd r) < length s"
proof -
  assume "name_line_at s = Some r"
  then obtain s1 where "s = ''// '' @ s1" "dropWhile is_word s1 = '' ...\<newline>'' @ snd r"
    by (auto simp: name_line_at_def strip_prefix_Some simp del: append.simps
        split: option.splits if_splits)
  then show ?thesis
    using length_dropWhile_le [of is_word s1] by simp
qed

function findall_names :: "string \<Rightarrow> string list" where
  \<comment> \<open>\<^verbatim>\<open>re.findall(r'// (\w+) \.\.\.\n', content)\<close>\<close>
  "findall_names [] = []"
| "findall_names (c # cs) =
     (case name_line_at (c # cs) of
        None \<Rightarrow> findall_names cs
      | Some r \<Rightarrow> fst r # findall_names (snd r))"
  by pat_completeness auto
termination
  by (relation "measure length") (auto dest: name_line_at_length)

definition read_existing_common :: "directory \<Rightarrow> string set \<times> string" where
  \<comment> \<open>a missing file is \<^verbatim>\<open>FileNotFoundError\<close>: no names and the empty text\<close>
  "read_existing_common fs =
     (case map_of fs ''common.rs'' of
        None \<Rightarrow> ({}, [])
      | Some text \<Rightarrow> (set (findall_names text), text))"

definition rstrip_nl :: "string \<Rightarrow> string" where
  \<comment> \<open>\<^verbatim>\<open>s.rstrip('\n')\<close>\<close>
  "rstrip_nl s = rev (dropWhile (\<lambda>c. c = CHR ''\<newline>'') (rev s))"

fun join :: "string \<Rightarrow> string list \<Rightarrow> string" where
  \<comment> \<open>\<^verbatim>\<open>sep.join(xs)\<close>\<close>
  "join sep [] = []"
| "join sep [x] = x"
| "join sep (x # y # ys) = x @ sep @ join sep (y # ys)"

fun fs_write :: "string \<Rightarrow> string \<Rightarrow> directory \<Rightarrow> directory" where
  \<comment> \<open>\<^verbatim>\<open>open(name, 'w').write(text)\<close>: the file is replaced, or created\<close>
  "fs_write name text [] = [(name, text)]"
| "fs_write name text (f # fs) =
     (if fst f = name then (name, text) # fs else f # fs_write name text fs)"

definition generate_common_file :: "type_locations \<Rightarrow> directory \<Rightarrow> error + directory" where
  \<comment> \<open>\<^verbatim>\<open>matches[0]\<close> of an empty list is an \<^verbatim>\<open>IndexError\<close>, raised before the file is
      written\<close>
  "generate_common_file duplicate_types fs =
     (case read_existing_common fs of (existing_types, existing_content) \<Rightarrow>
      let added = filter (\<lambda>e. fst e \<notin> existing_types) (sort_key fst duplicate_types)
      in if list_ex (\<lambda>e. snd e = []) added then Inl IndexError
         else Inr (fs_write ''common.rs''
                (join ''\<newline>'' ([rstrip_nl existing_content]
                   @ map (\<lambda>e. rstrip_nl (content (hd (snd e)))) added @ [''\<newline>'']))
                fs))"

section \<open>The Rewrite Engine: \<^verbatim>\<open>remove_duplicates\<close>\<close>

definition splice :: "string \<Rightarrow> nat \<times> nat \<Rightarrow> string" where
  \<comment> \<open>\<^verbatim>\<open>new_content[:start] + new_content[end:]\<close>\<close>
  "splice text p = take (fst p) text @ drop (snd p) text"

definition apply_positions :: "string \<Rightarrow> (nat \<times> nat) list \<Rightarrow> string" where
  \<comment> \<open>\<^verbatim>\<open>positions.sort(reverse=True)\<close>, then the loop over the positions\<close>
  "apply_positions text positions = foldl splice text (rev (sort positions))"

definition file_positions :: "StructMatch list \<Rightarrow> (string \<times> (nat \<times> nat) list) list" where
  \<comment> \<open>the dict \<^verbatim>\<open>file_positions\<close>, filled from the matches in the order the code visits them\<close>
  "file_positions matches =
     foldl (\<lambda>d m. dict_append (filename m) (start_pos m, end_pos m) d) [] matches"

fun rewrite_files ::
  "(string \<rightharpoonup> string) \<Rightarrow> (string \<times> (nat \<times> nat) list) list \<Rightarrow> directory
     \<Rightarrow> directory \<times> error option" where
  \<comment> \<open>the loop over \<^verbatim>\<open>file_positions.items()\<close>; a file name that \<^verbatim>\<open>file_contents\<close> lacks
      is a \<^verbatim>\<open>KeyError\<close>, after the files before it were written\<close>
  "rewrite_files file_contents [] fs = (fs, None)"
| "rewrite_files file_contents (e # rest) fs =
     (if snd e = [] then rewrite_files file_contents rest fs
      else case file_contents (fst e) of
        None \<Rightarrow> (fs, Some KeyError)
      | Some text \<Rightarrow>
          rewrite_files file_contents rest
            (if apply_positions text (snd e) \<noteq> text
             then fs_write (fst e) (apply_positions text (snd e)) fs else fs))"

definition remove_duplicates ::
  "(string \<rightharpoonup> string) \<Rightarrow> type_locations option \<Rightarrow> StructMatch list \<Rightarrow> directory
     \<Rightarrow> directory \<times> error option" where
  \<comment> \<open>\<^verbatim>\<open>duplicate_structs.values()\<close> on \<^verbatim>\<open>None\<close> is an \<^verbatim>\<open>AttributeError\<close>, raised before
      any file is written\<close>
  "remove_duplicates file_contents duplicate_structs lowercase_matches fs =
     (case duplicate_structs of
        None \<Rightarrow> (fs, Some AttributeError)
      | Some d \<Rightarrow>
          rewrite_files file_contents
            (file_positions (concat (map snd d) @ lowercase_matches)) fs)"

section \<open>A run: \<^verbatim>\<open>main\<close>\<close>

definition main :: "directory \<Rightarrow> int \<Rightarrow> directory \<times> int" where
  \<comment> \<open>the directory after the run and the exit code; \<open>typecount\<close> is \<^verbatim>\<open>int(args.typecount)\<close>.
      An exception is caught by \<^verbatim>\<open>except Exception\<close> and the run returns 1.\<close>
  "main fs typecount =
     (case scan_rust_files fs of (type_locs, file_contents, lowercase_matches) \<Rightarrow>
      case print_summary type_locs lowercase_matches typecount of
        None \<Rightarrow>
          if lowercase_matches \<noteq> [] then
            (case remove_duplicates file_contents None lowercase_matches fs of
               (fs2, None) \<Rightarrow> (fs2, 0)
             | (fs2, Some e) \<Rightarrow> (fs2, 1))
          else (fs, 0)
      | Some frequent_types \<Rightarrow>
          (case generate_common_file frequent_types fs of
             Inl e \<Rightarrow> (fs, 1)
           | Inr fs1 \<Rightarrow>
               (case remove_duplicates file_contents (Some frequent_types)
                       lowercase_matches fs1 of
                  (fs2, None) \<Rightarrow> (fs2, 0)
                | (fs2, Some e) \<Rightarrow> (fs2, 1))))"

section \<open>Properties of the threshold\<close>

lemma print_summary_member:
  "(\<exists>d. print_summary locations lm typecount = Some d \<and> e \<in> set d)
     \<longleftrightarrow> e \<in> set locations \<and> typecount \<le> total_usage (snd e)"
proof -
  let ?d = "filter (\<lambda>e. typecount \<le> total_usage (snd e)) locations"
  show ?thesis
  proof (cases "?d = []")
    case True
    then have "print_summary locations lm typecount = None"
      by (simp add: print_summary_def)
    moreover from True have "\<not> (e \<in> set locations \<and> typecount \<le> total_usage (snd e))"
      by (auto simp: filter_empty_conv)
    ultimately show ?thesis by simp
  next
    case False
    then have "print_summary locations lm typecount = Some ?d"
      by (simp add: print_summary_def)
    then show ?thesis by auto
  qed
qed

section \<open>Properties of the Declaration Matcher\<close>

definition span :: "type_match \<Rightarrow> nat \<times> nat" where
  \<comment> \<open>\<^verbatim>\<open>(match.start(), match.end())\<close>\<close>
  "span m = (m_start m, m_end m)"

lemma type_match_at_split:
  assumes "type_match_at s = Some r"
  shows "\<exists>t. s = t @ snd r \<and> t \<noteq> [] \<and> take 5 t = ''\<newline>\<newline>// ''"
proof -
  from assms have "type_match_at s = Some (fst r, snd r)" by simp
  from type_match_at_decomp [OF this] obtain kw mid where
    "s = (''\<newline>\<newline>// '' @ fst r @ '' ...\<newline>'' @ header @ kw @ mid @ footer) @ snd r"
    by auto
  then show ?thesis
    by (intro exI [of _ "''\<newline>\<newline>// '' @ fst r @ '' ...\<newline>'' @ header @ kw @ mid @ footer"]) simp
qed

lemma finditer_types_bounds:
  "m \<in> set (finditer_types pos s) \<Longrightarrow>
     pos \<le> m_start m \<and> m_start m < m_end m \<and> m_end m \<le> pos + length s"
proof (induction pos s rule: finditer_types.induct)
  case (1 pos)
  then show ?case by simp
next
  case (2 pos c cs)
  show ?case
  proof (cases "type_match_at (c # cs)")
    case None
    with 2 show ?thesis by fastforce
  next
    case (Some r)
    from type_match_at_split [OF Some] obtain t where t: "c # cs = t @ snd r" "t \<noteq> []"
      by blast
    then have len: "length (c # cs) - length (snd r) = length t" "0 < length t"
      by (metis add_diff_cancel_right' length_append, simp)
    from "2.prems" Some consider
      "m = mk_match pos (c # cs) (fst r) (snd r)"
      | "m \<in> set (finditer_types (pos + (length (c # cs) - length (snd r))) (snd r))"
      by auto
    then show ?thesis
    proof cases
      case 1
      then show ?thesis
        using len t(1) by (simp add: mk_match_def del: length_Cons)
    next
      case 2
      from "2.IH"(2) [OF Some 2] show ?thesis
        using len t(1) by (metis add.assoc le_add1 le_trans length_append)
    qed
  qed
qed

lemma finditer_types_sorted:
  "sorted_wrt (\<lambda>p q. snd p \<le> fst q) (map span (finditer_types pos s))"
proof (induction pos s rule: finditer_types.induct)
  case (1 pos)
  then show ?case by simp
next
  case (2 pos c cs)
  show ?case
  proof (cases "type_match_at (c # cs)")
    case None
    with 2 show ?thesis by simp
  next
    case (Some r)
    have "\<forall>m\<in>set (finditer_types (pos + (length (c # cs) - length (snd r))) (snd r)).
            pos + (length (c # cs) - length (snd r)) \<le> m_start m"
      using finditer_types_bounds by blast
    with "2.IH"(2) [OF Some] Some show ?thesis
      by (simp add: span_def mk_match_def del: length_Cons)
  qed
qed

lemma finditer_types_text:
  "m \<in> set (finditer_types pos s) \<Longrightarrow>
     m_text m = take (m_end m - m_start m) (drop (m_start m - pos) s)"
proof (induction pos s rule: finditer_types.induct)
  case (1 pos)
  then show ?case by simp
next
  case (2 pos c cs)
  show ?case
  proof (cases "type_match_at (c # cs)")
    case None
    with "2.prems" have m: "m \<in> set (finditer_types (Suc pos) cs)" by simp
    from finditer_types_bounds [OF m] have "Suc pos \<le> m_start m" by simp
    then have "drop (m_start m - pos) (c # cs) = drop (m_start m - Suc pos) cs"
      by (metis Suc_diff_le diff_Suc_Suc drop_Suc_Cons)
    with "2.IH"(1) [OF None m] show ?thesis by (simp only:)
  next
    case (Some r)
    from type_match_at_split [OF Some] obtain t where
      t: "c # cs = t @ snd r" "t \<noteq> []"
      by blast
    then have len: "length (c # cs) - length (snd r) = length t"
      by (metis add_diff_cancel_right' length_append)
    from "2.prems" Some consider
      "m = mk_match pos (c # cs) (fst r) (snd r)"
      | "m \<in> set (finditer_types (pos + (length (c # cs) - length (snd r))) (snd r))"
      by auto
    then show ?thesis
    proof cases
      case 1
      then show ?thesis
        using len t by (simp add: mk_match_def del: length_Cons)
    next
      case 2
      from finditer_types_bounds [OF 2] have "pos + length t \<le> m_start m"
        using len by simp
      then have "drop (m_start m - pos) (t @ snd r) = drop (m_start m - (pos + length t)) (snd r)"
        by simp
      with "2.IH"(2) [OF Some 2] show ?thesis
        using len t(1) by (simp only: add.commute)
    qed
  qed
qed

lemma finditer_types_head:
  "m \<in> set (finditer_types pos s) \<Longrightarrow> take 5 (m_text m) = ''\<newline>\<newline>// ''"
proof (induction pos s rule: finditer_types.induct)
  case (1 pos)
  then show ?case by simp
next
  case (2 pos c cs)
  show ?case
  proof (cases "type_match_at (c # cs)")
    case None
    with 2 show ?thesis by simp
  next
    case (Some r)
    from type_match_at_split [OF Some] obtain t where
      t: "c # cs = t @ snd r" "take 5 t = ''\<newline>\<newline>// ''"
      by blast
    then have len: "length (c # cs) - length (snd r) = length t"
      by (metis add_diff_cancel_right' length_append)
    from "2.prems" Some consider
      "m = mk_match pos (c # cs) (fst r) (snd r)"
      | "m \<in> set (finditer_types (pos + (length (c # cs) - length (snd r))) (snd r))"
      by auto
    then show ?thesis
    proof cases
      case 1
      then show ?thesis
        using len t by (simp add: mk_match_def del: length_Cons)
    next
      case 2
      with "2.IH"(2) [OF Some] show ?thesis by simp
    qed
  qed
qed

section \<open>Properties of the Rewrite Engine\<close>

definition covered :: "(nat \<times> nat) list \<Rightarrow> nat \<Rightarrow> bool" where
  \<comment> \<open>offset \<open>i\<close> lies in one of the spans\<close>
  "covered ps i \<longleftrightarrow> list_ex (\<lambda>p. fst p \<le> i \<and> i < snd p) ps"

definition keep_from :: "(nat \<times> nat) list \<Rightarrow> nat \<Rightarrow> string \<Rightarrow> string" where
  \<comment> \<open>the characters of a text starting at offset \<open>off\<close> that lie outside every span\<close>
  "keep_from ps off text =
     map snd (filter (\<lambda>ic. \<not> covered ps (fst ic)) (enumerate off text))"

definition outside :: "(nat \<times> nat) list \<Rightarrow> string \<Rightarrow> string" where
  \<comment> \<open>the content of a file outside the spans\<close>
  "outside ps text = keep_from ps 0 text"

definition delete_span :: "nat \<times> nat \<Rightarrow> (nat \<times> char) list \<Rightarrow> (nat \<times> char) list" where
  \<comment> \<open>deleting one span from a text whose characters carry their original offsets\<close>
  "delete_span p t = filter (\<lambda>ic. \<not> (fst p \<le> fst ic \<and> fst ic < snd p)) t"

definition delete_in_order :: "(nat \<times> nat) list \<Rightarrow> string \<Rightarrow> string" where
  \<comment> \<open>deleting the spans one after the other, in the order of the list\<close>
  "delete_in_order ps text = map snd (fold delete_span ps (enumerate 0 text))"

lemma covered_Nil [simp]: "\<not> covered [] i"
  by (simp add: covered_def)

lemma covered_append: "covered (ps @ qs) i \<longleftrightarrow> covered ps i \<or> covered qs i"
  by (auto simp: covered_def list_ex_iff)

lemma covered_iff: "covered ps i \<longleftrightarrow> (\<exists>p\<in>set ps. fst p \<le> i \<and> i < snd p)"
  by (simp add: covered_def list_ex_iff)

lemma keep_from_append:
  "keep_from ps off (xs @ ys) = keep_from ps off xs @ keep_from ps (off + length xs) ys"
  by (simp add: keep_from_def enumerate_append_eq)

lemma keep_from_all:
  "(\<And>i. off \<le> i \<Longrightarrow> i < off + length xs \<Longrightarrow> \<not> covered ps i) \<Longrightarrow> keep_from ps off xs = xs"
proof (induction xs arbitrary: off)
  case Nil
  then show ?case by (simp add: keep_from_def)
next
  case (Cons x xs)
  have "\<not> covered ps off" using Cons.prems [of off] by simp
  moreover have "keep_from ps (Suc off) xs = xs"
    using Cons.prems by (intro Cons.IH) simp_all
  ultimately show ?case by (simp add: keep_from_def)
qed

lemma keep_from_none:
  "(\<And>i. off \<le> i \<Longrightarrow> i < off + length xs \<Longrightarrow> covered ps i) \<Longrightarrow> keep_from ps off xs = []"
proof (induction xs arbitrary: off)
  case Nil
  then show ?case by (simp add: keep_from_def)
next
  case (Cons x xs)
  have "covered ps off" using Cons.prems [of off] by simp
  moreover have "keep_from ps (Suc off) xs = []"
    using Cons.prems by (intro Cons.IH) simp_all
  ultimately show ?case by (simp add: keep_from_def)
qed

lemma keep_from_cong:
  "(\<And>i. off \<le> i \<Longrightarrow> i < off + length xs \<Longrightarrow> covered ps i = covered qs i)
     \<Longrightarrow> keep_from ps off xs = keep_from qs off xs"
proof (induction xs arbitrary: off)
  case Nil
  then show ?case by (simp add: keep_from_def)
next
  case (Cons x xs)
  have "covered ps off = covered qs off" using Cons.prems [of off] by simp
  moreover have "keep_from ps (Suc off) xs = keep_from qs (Suc off) xs"
    using Cons.prems by (intro Cons.IH) simp_all
  ultimately show ?case by (simp add: keep_from_def)
qed

lemma fold_delete_span:
  "fold delete_span ps t = filter (\<lambda>ic. \<not> covered ps (fst ic)) t"
proof (induction ps arbitrary: t)
  case Nil
  then show ?case by simp
next
  case (Cons p ps)
  have "fold delete_span (p # ps) t = filter (\<lambda>ic. \<not> covered ps (fst ic)) (delete_span p t)"
    by (simp add: Cons.IH)
  also have "\<dots> = filter (\<lambda>ic. \<not> covered (p # ps) (fst ic)) t"
    by (auto simp: delete_span_def covered_def intro: filter_cong)
  finally show ?case .
qed

lemma delete_in_order_outside: "delete_in_order ps text = outside ps text"
  by (simp add: delete_in_order_def outside_def keep_from_def fold_delete_span)

lemma outside_perm: "set ps = set qs \<Longrightarrow> outside ps text = outside qs text"
  by (simp add: outside_def keep_from_def covered_iff)

lemma splice_outside_step:
  assumes "\<forall>q\<in>set ps. snd q \<le> a" "a \<le> b"
  shows "keep_from ps 0 (splice str (a, b)) = keep_from (ps @ [(a, b)]) 0 str"
proof -
  have nc: "\<not> covered ps i" if "a \<le> i" for i
    using assms(1) that by (fastforce simp: covered_iff)
  have left: "keep_from ps 0 (take a str) = keep_from (ps @ [(a, b)]) 0 (take a str)"
    by (rule keep_from_cong) (auto simp: covered_append covered_iff)
  have lhs_right: "keep_from ps (length (take a str)) (drop b str) = drop b str"
  proof (cases "a \<le> length str")
    case True
    then show ?thesis by (intro keep_from_all nc) simp
  next
    case False
    with assms(2) show ?thesis by (simp add: keep_from_def)
  qed
  have mid: "keep_from (ps @ [(a, b)]) (length (take a str)) (take (b - a) (drop a str)) = []"
  proof (cases "a \<le> length str")
    case True
    then show ?thesis
      by (intro keep_from_none) (auto simp: covered_append covered_iff)
  next
    case False
    then show ?thesis by (simp add: keep_from_def)
  qed
  have rhs_right:
    "keep_from (ps @ [(a, b)]) (length (take a str) + length (take (b - a) (drop a str)))
       (drop b str) = drop b str"
  proof (cases "b \<le> length str")
    case True
    with assms(2) have "length (take a str) + length (take (b - a) (drop a str)) = b"
      by simp
    moreover have "\<not> covered (ps @ [(a, b)]) i" if "b \<le> i" for i
      using that assms(2) nc [of i] by (simp add: covered_append) (simp add: covered_iff)
    ultimately show ?thesis by (intro keep_from_all) simp
  next
    case False
    then show ?thesis by (simp add: keep_from_def)
  qed
  have "take (b - a) (drop a str) @ drop b str = drop a str"
    using assms(2) by (metis append_take_drop_id drop_drop le_add_diff_inverse2)
  then have whole: "str = take a str @ take (b - a) (drop a str) @ drop b str"
    by simp
  have "keep_from (ps @ [(a, b)]) 0 str
          = keep_from (ps @ [(a, b)]) 0 (take a str @ take (b - a) (drop a str) @ drop b str)"
    using whole by simp
  also have "\<dots> = keep_from ps 0 (take a str) @ drop b str"
    using left mid rhs_right by (simp add: keep_from_append add.assoc del: length_take)
  also have "\<dots> = keep_from ps 0 (splice str (a, b))"
    using lhs_right by (simp add: splice_def keep_from_append del: length_take)
  finally show ?thesis by simp
qed

lemma foldl_splice_outside:
  assumes "sorted_wrt (\<lambda>p q. snd p \<le> fst q) ps" "\<forall>p\<in>set ps. fst p \<le> snd p"
  shows "foldl splice str (rev ps) = outside ps str"
  using assms
proof (induction ps arbitrary: str rule: rev_induct)
  case Nil
  then show ?case by (simp add: outside_def keep_from_all)
next
  case (snoc p ps)
  from snoc.prems have sorted: "sorted_wrt (\<lambda>p q. snd p \<le> fst q) ps"
    and le: "\<forall>q\<in>set ps. snd q \<le> fst p" and nonneg: "\<forall>q\<in>set ps. fst q \<le> snd q"
    and p: "fst p \<le> snd p"
    by (auto simp: sorted_wrt_append)
  have "foldl splice str (rev (ps @ [p])) = foldl splice (splice str p) (rev ps)"
    by simp
  also have "\<dots> = keep_from ps 0 (splice str (fst p, snd p))"
    using snoc.IH [OF sorted nonneg] by (simp add: outside_def)
  also have "\<dots> = keep_from (ps @ [(fst p, snd p)]) 0 str"
    using le p by (rule splice_outside_step)
  finally show ?case by (simp add: outside_def)
qed

lemma foldl_splice_length:
  assumes "sorted_wrt (\<lambda>p q. snd p \<le> fst q) ps"
    "\<forall>p\<in>set ps. fst p \<le> snd p \<and> snd p \<le> length str"
  shows "length (foldl splice str (rev ps)) + sum_list (map (\<lambda>p. snd p - fst p) ps)
           = length str"
  using assms
proof (induction ps arbitrary: str rule: rev_induct)
  case Nil
  then show ?case by simp
next
  case (snoc p ps)
  from snoc.prems have sorted: "sorted_wrt (\<lambda>p q. snd p \<le> fst q) ps"
    and le: "\<forall>q\<in>set ps. snd q \<le> fst p" and nonneg: "\<forall>q\<in>set ps. fst q \<le> snd q"
    and p: "fst p \<le> snd p" "snd p \<le> length str"
    by (auto simp: sorted_wrt_append)
  have len: "length (splice str p) + (snd p - fst p) = length str"
    using p by (simp add: splice_def)
  then have "\<forall>q\<in>set ps. fst q \<le> snd q \<and> snd q \<le> length (splice str p)"
    using le nonneg p by (fastforce simp: splice_def)
  from snoc.IH [OF sorted this] len show ?case by simp
qed

lemma sort_ascending_spans:
  assumes "sorted_wrt (\<lambda>p q. snd p \<le> fst q) ps" "\<forall>p\<in>set ps. fst p < snd p"
    "mset qs = mset ps"
  shows "sort qs = ps"
proof -
  have "sorted_wrt (\<le>) ps"
    using assms(1,2)
  proof (induction ps)
    case Nil
    then show ?case by simp
  next
    case (Cons p ps)
    have "p \<le> q" if "q \<in> set ps" for q
    proof -
      from Cons.prems that have "fst p < snd p" "snd p \<le> fst q" by auto
      then have "fst p < fst q" by simp
      then show ?thesis by (simp add: less_eq_prod_def)
    qed
    moreover have "sorted_wrt (\<le>) ps"
      using Cons by simp
    ultimately show ?case by simp
  qed
  with assms(3) show ?thesis
    by (simp add: properties_for_sort)
qed

lemma apply_positions_outside:
  assumes "sorted_wrt (\<lambda>p q. snd p \<le> fst q) ps" "\<forall>p\<in>set ps. fst p < snd p"
    "mset qs = mset ps"
  shows "apply_positions str qs = outside qs str"
proof -
  have "sort qs = ps" using assms by (rule sort_ascending_spans)
  then have "apply_positions str qs = foldl splice str (rev ps)"
    by (simp add: apply_positions_def)
  also have "\<dots> = outside ps str"
    using assms(1,2) by (intro foldl_splice_outside) auto
  also have "\<dots> = outside qs str"
    using assms(3) by (intro outside_perm) (metis set_mset_mset)
  finally show ?thesis .
qed

lemma apply_positions_length:
  assumes "sorted_wrt (\<lambda>p q. snd p \<le> fst q) ps"
    "\<forall>p\<in>set ps. fst p < snd p \<and> snd p \<le> length str" "mset qs = mset ps"
  shows "length (apply_positions str qs) + sum_list (map (\<lambda>p. snd p - fst p) qs) = length str"
proof -
  have "sort qs = ps" using assms by (intro sort_ascending_spans) auto
  then have "apply_positions str qs = foldl splice str (rev ps)"
    by (simp add: apply_positions_def)
  moreover have "sum_list (map (\<lambda>p. snd p - fst p) qs) = sum_list (map (\<lambda>p. snd p - fst p) ps)"
  proof -
    have "mset (map (\<lambda>p. snd p - fst p) qs) = mset (map (\<lambda>p. snd p - fst p) ps)"
      using assms(3) by simp
    then have "sum_mset (mset (map (\<lambda>p. snd p - fst p) qs))
                 = sum_mset (mset (map (\<lambda>p. snd p - fst p) ps))"
      by (simp only:)
    then show ?thesis by (simp only: sum_mset_sum_list)
  qed
  moreover have "length (foldl splice str (rev ps)) + sum_list (map (\<lambda>p. snd p - fst p) ps)
                   = length str"
    using assms(1,2) by (intro foldl_splice_length) auto
  ultimately show ?thesis by simp
qed

section \<open>Declaration blocks\<close>

definition decl_block :: "string \<Rightarrow> string \<Rightarrow> string \<Rightarrow> string" where
  \<comment> \<open>the text of a declaration: the blank line, the comment line with the name, the five
      annotation lines, the keyword, the rest of the declaration and the closing idiom\<close>
  "decl_block name kw body =
     ''\<newline>\<newline>// '' @ name @ '' ...\<newline>'' @ header @ kw @ body @ footer"

definition well_formed_decl :: "string \<Rightarrow> string \<Rightarrow> string \<Rightarrow> bool" where
  \<comment> \<open>the name is a word, the keyword is one of the two, the body starts with white space
      and a word, and the closing idiom occurs first at the end of the block\<close>
  "well_formed_decl name kw body \<longleftrightarrow>
     name \<noteq> [] \<and> list_all is_word name \<and> (kw = ''pub struct'' \<or> kw = ''pub enum'') \<and>
     takeWhile is_space body \<noteq> [] \<and> takeWhile is_word (dropWhile is_space body) \<noteq> [] \<and>
     find_footer (dropWhile is_word (dropWhile is_space body) @ footer) = Some []"

lemma strip_prefix_None_append:
  assumes "strip_prefix p s = None" "length p \<le> length s"
  shows "strip_prefix p (s @ t) = None"
proof (rule ccontr)
  assume "strip_prefix p (s @ t) \<noteq> None"
  then obtain r where "s @ t = p @ r" by (auto simp: strip_prefix_Some)
  with assms(2) have "take (length p) s = p"
    by (metis append_eq_append_conv_if append_eq_conv_conj)
  then have "s = p @ drop (length p) s"
    by (metis append_take_drop_id)
  then have "strip_prefix p s = Some (drop (length p) s)"
    by (simp only: strip_prefix_Some)
  with assms(1) show False by simp
qed

lemma find_footer_footer [simp]: "find_footer (footer @ r) = Some r"
proof -
  obtain c cs where f: "footer = c # cs" by (auto simp: footer_def)
  have "strip_prefix (c # cs) ((c # cs) @ r) = Some r"
    by (rule strip_prefix_append)
  then have "find_footer (c # (cs @ r)) = Some r"
    by (simp add: f)
  then show ?thesis by (simp add: f)
qed

lemma find_footer_append:
  "find_footer (x @ footer) = Some [] \<Longrightarrow> find_footer (x @ footer @ r) = Some r"
proof (induction x)
  case Nil
  then show ?case by simp
next
  case (Cons c x)
  show ?case
  proof (cases "strip_prefix footer (c # x @ footer)")
    case None
    then have "strip_prefix footer ((c # x @ footer) @ r) = None"
      by (rule strip_prefix_None_append) simp
    moreover from None Cons.prems have "find_footer (x @ footer) = Some []" by simp
    ultimately show ?thesis using Cons.IH by simp
  next
    case (Some t)
    with Cons.prems have "t = []" by simp
    with Some have "c # x @ footer = footer" by (simp add: strip_prefix_Some)
    then have "length (c # x @ footer) = length footer" by (simp only:)
    then show ?thesis by simp
  qed
qed

lemma is_word_not_space [simp]: "\<not> is_word (CHR '' '')"
  by (simp add: is_word_def)

lemma is_word_not_tab [simp]: "\<not> is_word (CHR 0x09)"
  by (simp add: is_word_def)

lemma hd_footer: "footer = CHR 0x09 # tl footer"
  by (simp add: footer_def)

lemma well_formed_decl_match:
  assumes "well_formed_decl name kw body"
  shows "type_match_at (decl_block name kw body @ rest) = Some (name, rest)"
proof -
  from assms have name: "name \<noteq> []" "\<forall>c\<in>set name. is_word c"
    and kw: "kw = ''pub struct'' \<or> kw = ''pub enum''"
    and sp: "takeWhile is_space body \<noteq> []"
    and wd: "takeWhile is_word (dropWhile is_space body) \<noteq> []"
    and ff: "find_footer (dropWhile is_word (dropWhile is_space body) @ footer) = Some []"
    by (auto simp: well_formed_decl_def list_all_iff)
  define z where "z = footer @ rest"
  define b1 where "b1 = dropWhile is_space body"
  have z: "z = CHR 0x09 # tl footer @ rest"
    unfolding z_def using hd_footer by (metis append_Cons)
  have tw: "takeWhile is_word (name @ '' ...\<newline>'' @ header @ kw @ body @ z) = name"
    using name(2) by (simp add: takeWhile_append2)
  have dw: "dropWhile is_word (name @ '' ...\<newline>'' @ header @ kw @ body @ z)
              = '' ...\<newline>'' @ header @ kw @ body @ z"
    using name(2) by (simp add: dropWhile_append2)
  have kwm: "(case strip_prefix ''pub struct'' (kw @ body @ z) of Some t \<Rightarrow> Some t
              | None \<Rightarrow> strip_prefix ''pub enum'' (kw @ body @ z)) = Some (body @ z)"
    using kw by auto
  from wd have b1_ne: "b1 \<noteq> []" by (metis b1_def takeWhile.simps(1))
  then obtain x where x: "x \<in> set body" "\<not> is_space x"
    unfolding b1_def by (auto simp: dropWhile_eq_Nil_conv)
  then have ds: "dropWhile is_space (body @ z) = b1 @ z"
    unfolding b1_def by (simp add: dropWhile_append1)
  have ts: "takeWhile is_space (body @ z) \<noteq> []"
    using sp by (cases body) (auto split: if_splits)
  have tw2: "takeWhile is_word (b1 @ z) \<noteq> []"
    using wd unfolding b1_def [symmetric] by (cases b1) (auto split: if_splits)
  have dw2: "dropWhile is_word (b1 @ z) = dropWhile is_word b1 @ z"
  proof (cases "\<forall>c\<in>set b1. is_word c")
    case True
    then have "dropWhile is_word (b1 @ z) = dropWhile is_word z"
      by (simp add: dropWhile_append2)
    moreover have "dropWhile is_word z = z"
      by (simp add: z)
    moreover have "dropWhile is_word b1 = []"
      using True by (simp add: dropWhile_eq_Nil_conv)
    ultimately show ?thesis by simp
  next
    case False
    then obtain y where "y \<in> set b1" "\<not> is_word y" by blast
    then show ?thesis by (rule dropWhile_append1)
  qed
  have "find_footer (dropWhile is_word b1 @ z) = Some rest"
    unfolding z_def using ff [folded b1_def] by (rule find_footer_append)
  then show ?thesis
    unfolding decl_block_def type_match_at_def
    using name(1) tw dw kwm ds ts tw2 dw2
    by (simp add: z_def [symmetric] del: append.simps)
qed

lemma length_header: "length header = 295"
  by (simp add: header_def)

lemma length_footer: "length footer = 14"
  by (simp add: footer_def)

lemma length_decl_block:
  "length (decl_block name kw body) = 319 + length name + length kw + length body"
  by (simp add: decl_block_def length_header length_footer)

lemma finditer_types_block:
  assumes "well_formed_decl name kw body"
  shows "finditer_types pos (decl_block name kw body @ rest) =
           \<lparr>m_start = pos, m_end = pos + length (decl_block name kw body), m_name = name,
            m_text = decl_block name kw body\<rparr>
             # finditer_types (pos + length (decl_block name kw body)) rest"
proof -
  obtain c cs where c: "decl_block name kw body @ rest = c # cs"
    by (auto simp: decl_block_def)
  have "type_match_at (c # cs) = Some (name, rest)"
    using well_formed_decl_match [OF assms, of rest] c by simp
  then have "finditer_types pos (c # cs) =
      mk_match pos (c # cs) name rest # finditer_types (pos + (length (c # cs) - length rest)) rest"
    by simp
  then show ?thesis
    unfolding c [symmetric] by (simp add: mk_match_def)
qed

lemma type_match_at_not_newline:
  "c \<noteq> CHR ''\<newline>'' \<Longrightarrow> type_match_at (c # cs) = None"
  by (simp add: type_match_at_def)

lemma type_match_at_single_newline:
  "c \<noteq> CHR ''\<newline>'' \<Longrightarrow> type_match_at (d # c # cs) = None"
  by (simp add: type_match_at_def)

lemma type_match_at_short: "type_match_at [c] = None"
  by (simp add: type_match_at_def)

lemma type_match_at_three_newlines:
  "type_match_at (CHR ''\<newline>'' # decl_block name kw body @ rest) = None"
  by (simp add: type_match_at_def decl_block_def)

section \<open>An example file\<close>

definition bar_decl :: string where
  \<comment> \<open>a declaration named \<^verbatim>\<open>Bar\<close>\<close>
  "bar_decl = decl_block ''Bar'' ''pub enum''
     ('' Bar {\<newline>}\<newline>\<newline>impl Bar {\<newline>'' @ [CHR 0x09] @ ''pub fn validate(&self) {\<newline>'')"

definition helper_decl :: string where
  \<comment> \<open>a declaration named \<^verbatim>\<open>helper\<close>, with the field line \<^verbatim>\<open>foo: Bar,\<close>\<close>
  "helper_decl = decl_block ''helper'' ''pub struct''
     ('' helper {\<newline>'' @ [CHR 0x09] @ ''foo: Bar,\<newline>}\<newline>\<newline>impl helper {\<newline>'' @ [CHR 0x09]
        @ ''pub fn validate(&self) {\<newline>'')"

definition example_text :: string where
  "example_text = ''use x;'' @ bar_decl @ helper_decl"

lemma well_formed_bar:
  "well_formed_decl ''Bar'' ''pub enum''
     ('' Bar {\<newline>}\<newline>\<newline>impl Bar {\<newline>'' @ [CHR 0x09] @ ''pub fn validate(&self) {\<newline>'')"
  by (simp add: well_formed_decl_def is_word_def is_space_def footer_def)

lemma well_formed_helper:
  "well_formed_decl ''helper'' ''pub struct''
     ('' helper {\<newline>'' @ [CHR 0x09] @ ''foo: Bar,\<newline>}\<newline>\<newline>impl helper {\<newline>'' @ [CHR 0x09]
        @ ''pub fn validate(&self) {\<newline>'')"
  by (simp add: well_formed_decl_def is_word_def is_space_def footer_def)

lemma length_bar_decl: "length bar_decl = 377"
  by (simp add: bar_decl_def length_decl_block)

lemma length_helper_decl: "length helper_decl = 399"
  by (simp add: helper_decl_def length_decl_block)

lemma finditer_types_skip:
  "CHR ''\<newline>'' \<notin> set pre \<Longrightarrow>
     finditer_types pos (pre @ r) = finditer_types (pos + length pre) r"
  by (induction pre arbitrary: pos) (auto simp: type_match_at_not_newline)

lemma finditer_types_example:
  "finditer_types 0 example_text =
     [\<lparr>m_start = 6, m_end = 383, m_name = ''Bar'', m_text = bar_decl\<rparr>,
      \<lparr>m_start = 383, m_end = 782, m_name = ''helper'', m_text = helper_decl\<rparr>]"
proof -
  have "finditer_types 0 (''use x;'' @ bar_decl @ helper_decl @ [])
          = finditer_types (0 + length ''use x;'') (bar_decl @ helper_decl @ [])"
    by (rule finditer_types_skip) simp
  moreover have "0 + length ''use x;'' = 6"
    by simp
  ultimately have "finditer_types 0 example_text = finditer_types 6 (bar_decl @ helper_decl @ [])"
    by (simp only: example_text_def append_Nil2)
  also have "\<dots> = \<lparr>m_start = 6, m_end = 6 + length bar_decl, m_name = ''Bar'',
                      m_text = bar_decl\<rparr>
                     # finditer_types (6 + length bar_decl) (helper_decl @ [])"
    unfolding bar_decl_def by (rule finditer_types_block [OF well_formed_bar])
  also have "finditer_types (6 + length bar_decl) (helper_decl @ []) =
      [\<lparr>m_start = 6 + length bar_decl, m_end = 6 + length bar_decl + length helper_decl,
        m_name = ''helper'', m_text = helper_decl\<rparr>]"
    unfolding helper_decl_def
    by (simp only: finditer_types_block [OF well_formed_helper] finditer_types.simps)
  finally show ?thesis
    by (simp add: length_bar_decl length_helper_decl)
qed

section \<open>C5: the matched spans do not overlap, and the order of deletion does not matter\<close>

text \<open>
  C5. In every file the spans of the declarations that the Declaration Matcher finds are
  non-empty, lie inside the file, are pairwise disjoint and come in ascending order. For
  any list \<open>qs\<close> that holds these spans in some order, \<^verbatim>\<open>remove_duplicates\<close> (sorting the
  list in descending order and splicing each span out) leaves the content of the file outside
  the spans, which is what deleting the spans one at a time in the order of \<open>qs\<close> leaves,
  whatever that order is.
\<close>

theorem span_nonoverlap_order_invariance:
  assumes "mset qs = mset (map span (finditer_types 0 s))"
  shows "sorted_wrt (\<lambda>p q. snd p \<le> fst q) (map span (finditer_types 0 s))
       \<and> (\<forall>p\<in>set qs. fst p < snd p \<and> snd p \<le> length s)
       \<and> (\<forall>p\<in>set qs. \<forall>q\<in>set qs. p = q \<or> snd p \<le> fst q \<or> snd q \<le> fst p)
       \<and> distinct qs
       \<and> apply_positions s qs = delete_in_order qs s
       \<and> apply_positions s qs = apply_positions s (map span (finditer_types 0 s))
       \<and> apply_positions s qs = outside (map span (finditer_types 0 s)) s"
proof -
  let ?ps = "map span (finditer_types 0 s)"
  have sorted: "sorted_wrt (\<lambda>p q. snd p \<le> fst q) ?ps"
    by (rule finditer_types_sorted)
  have bounds: "\<forall>p\<in>set ?ps. fst p < snd p \<and> snd p \<le> length s"
    using finditer_types_bounds [of _ 0 s] by (auto simp: span_def)
  have set_eq: "set qs = set ?ps"
    using assms by (metis set_mset_mset)
  have nth_less: "snd (?ps ! i) \<le> fst (?ps ! j)" if "i < j" "j < length ?ps" for i j
    using sorted that by (simp only: sorted_wrt_iff_nth_less)
  have pair: "p = q \<or> snd p \<le> fst q \<or> snd q \<le> fst p" if "p \<in> set ?ps" "q \<in> set ?ps" for p q
  proof -
    from that obtain i j where ij: "i < length ?ps" "j < length ?ps" "p = ?ps ! i" "q = ?ps ! j"
      by (metis in_set_conv_nth)
    consider "i < j" | "j < i" | "i = j" by linarith
    then show ?thesis
      using ij nth_less by cases auto
  qed
  have "distinct ?ps"
    unfolding distinct_conv_nth
  proof (intro allI impI)
    fix i j
    assume ij: "i < length ?ps" "j < length ?ps" "i \<noteq> j"
    have ne: "?ps ! a \<noteq> ?ps ! b" if "a < b" "b < length ?ps" for a b
    proof -
      have "fst (?ps ! a) < snd (?ps ! a)"
        using bounds that by (metis nth_mem order_less_trans)
      moreover have "snd (?ps ! a) \<le> fst (?ps ! b)"
        using that by (rule nth_less)
      ultimately show ?thesis by auto
    qed
    from ij consider "i < j" | "j < i" by linarith
    then show "?ps ! i \<noteq> ?ps ! j"
    proof cases
      case 1
      then show ?thesis using ne [of i j] ij by simp
    next
      case 2
      then show ?thesis using ne [of j i] ij by (simp add: eq_commute)
    qed
  qed
  then have dist: "distinct qs"
    using assms by (metis mset_eq_imp_distinct_iff)
  have nonempty: "\<forall>p\<in>set ?ps. fst p < snd p"
    using bounds by blast
  have out: "apply_positions s qs = outside qs s"
    using sorted nonempty assms by (rule apply_positions_outside)
  have out': "apply_positions s ?ps = outside ?ps s"
    using sorted nonempty refl by (rule apply_positions_outside)
  have same: "outside qs s = outside ?ps s"
    using set_eq by (rule outside_perm)
  show ?thesis
    using sorted bounds set_eq pair dist out out' same
    by (simp add: delete_in_order_outside)
qed

theorem span_nonoverlap_order_invariance_witness:
  "mset [(383, 782), (6, 383)] = mset (map span (finditer_types 0 example_text))
   \<and> apply_positions example_text [(383, 782), (6, 383)]
       = delete_in_order [(383, 782), (6, 383)] example_text
   \<and> apply_positions example_text [(383, 782), (6, 383)]
       = delete_in_order [(6, 383), (383, 782)] example_text
   \<and> apply_positions example_text [(383, 782), (6, 383)] = ''use x;''"
proof -
  have m: "mset [(383, 782), (6, 383)] = mset (map span (finditer_types 0 example_text))"
    by (simp add: finditer_types_example span_def)
  have m': "mset [(6, 383), (383, 782)] = mset (map span (finditer_types 0 example_text))"
    by (simp add: finditer_types_example span_def)
  have "sort [(383, 782), (6, 383)] = [(6, 383), (383::nat, 782::nat)]"
    by (simp add: less_eq_prod_def)
  then have "apply_positions example_text [(383, 782), (6, 383)] = ''use x;''"
    by (simp add: apply_positions_def splice_def example_text_def length_bar_decl
        length_helper_decl)
  moreover from span_nonoverlap_order_invariance [OF m] have
    "apply_positions example_text [(383, 782), (6, 383)]
       = delete_in_order [(383, 782), (6, 383)] example_text"
    "apply_positions example_text [(383, 782), (6, 383)]
       = outside (map span (finditer_types 0 example_text)) example_text"
    by blast+
  moreover from span_nonoverlap_order_invariance [OF m'] have
    "apply_positions example_text [(6, 383), (383, 782)]
       = delete_in_order [(6, 383), (383, 782)] example_text"
    "apply_positions example_text [(6, 383), (383, 782)]
       = outside (map span (finditer_types 0 example_text)) example_text"
    by blast+
  ultimately show ?thesis
    using m by (simp only: simp_thms)
qed

section \<open>Properties of the dicts\<close>

definition dict_get :: "('k \<times> 'v list) list \<Rightarrow> 'k \<Rightarrow> 'v list" where
  \<comment> \<open>the list stored under a key; empty when the key is absent\<close>
  "dict_get d k = (case map_of d k of None \<Rightarrow> [] | Some vs \<Rightarrow> vs)"

lemma dict_get_Nil: "dict_get [] k = []"
  by (simp add: dict_get_def)

lemma dict_get_append:
  "dict_get (dict_append k v d) k' = dict_get d k' @ (if k' = k then [v] else [])"
  by (induction d) (auto simp: dict_get_def)

lemma dict_append_keys: "fst ` set (dict_append k v d) = insert k (fst ` set d)"
  by (induction d) auto

lemma dict_append_distinct:
  "distinct (map fst d) \<Longrightarrow> distinct (map fst (dict_append k v d))"
proof (induction d)
  case Nil
  then show ?case by simp
next
  case (Cons e d)
  then show ?case
    using dict_append_keys [of k v d] by auto
qed

lemma dict_append_nonempty:
  "\<forall>e\<in>set d. snd e \<noteq> [] \<Longrightarrow> \<forall>e\<in>set (dict_append k v d). snd e \<noteq> []"
  by (induction d) auto

lemma dict_append_values:
  "mset (concat (map snd (dict_append k v d))) = mset (concat (map snd d)) + {#v#}"
  by (induction d) auto

lemma dict_get_entry:
  "distinct (map fst d) \<Longrightarrow> (k, vs) \<in> set d \<Longrightarrow> dict_get d k = vs"
  by (simp add: dict_get_def)

lemma dict_entry_get:
  "\<forall>e\<in>set d. snd e \<noteq> [] \<Longrightarrow> dict_get d k \<noteq> [] \<Longrightarrow> (k, dict_get d k) \<in> set d"
  by (auto simp: dict_get_def split: option.splits dest: map_of_SomeD)

lemma dict_get_member:
  "(k, vs) \<in> set d \<Longrightarrow> \<forall>e\<in>set d. snd e \<noteq> [] \<Longrightarrow> dict_get d k \<noteq> []"
proof (induction d)
  case Nil
  then show ?case by simp
next
  case (Cons e d)
  then show ?case by (cases e) (auto simp: dict_get_def)
qed

text \<open>A dict filled by appending one value per element of a list.\<close>

lemma dict_fill_get:
  "dict_get (foldl (\<lambda>d x. dict_append (key x) (val x) d) d0 xs) k
     = dict_get d0 k @ map val (filter (\<lambda>x. key x = k) xs)"
  by (induction xs arbitrary: d0) (auto simp: dict_get_append)

lemma dict_fill_distinct:
  "distinct (map fst d0) \<Longrightarrow>
     distinct (map fst (foldl (\<lambda>d x. dict_append (key x) (val x) d) d0 xs))"
  by (induction xs arbitrary: d0) (auto simp: dict_append_distinct)

lemma dict_fill_nonempty:
  "\<forall>e\<in>set d0. snd e \<noteq> [] \<Longrightarrow>
     \<forall>e\<in>set (foldl (\<lambda>d x. dict_append (key x) (val x) d) d0 xs). snd e \<noteq> []"
proof (induction xs arbitrary: d0)
  case Nil
  then show ?case by simp
next
  case (Cons x xs)
  show ?case
    using Cons.IH [OF dict_append_nonempty [OF Cons.prems]] by simp
qed

lemma dict_fill_values:
  "mset (concat (map snd (foldl (\<lambda>d x. dict_append (key x) (val x) d) d0 xs)))
     = mset (concat (map snd d0)) + mset (map val xs)"
  by (induction xs arbitrary: d0) (auto simp: dict_append_values)

section \<open>What a scan collects\<close>

definition occurrence_of :: "string \<Rightarrow> string list \<Rightarrow> type_match \<Rightarrow> StructMatch" where
  \<comment> \<open>the \<^verbatim>\<open>StructMatch\<close> that the loop builds for a match\<close>
  "occurrence_of fname usages m =
     \<lparr>filename = fname, content = m_text m, start_pos = m_start m, end_pos = m_end m,
      usage_count = (if first_isupper (m_name m) then count_list usages (m_name m) else 0)\<rparr>"

definition file_occurrences :: "string \<times> string \<Rightarrow> (string \<times> StructMatch) list" where
  \<comment> \<open>the declared names of one file, each with its occurrence, in the order of the matches\<close>
  "file_occurrences f =
     map (\<lambda>m. (m_name m, occurrence_of (fst f) (type_usages (snd f)) m))
       (finditer_types 0 (snd f))"

definition rust_files :: "directory \<Rightarrow> directory" where
  "rust_files fs = filter (\<lambda>f. endswith (fst f) ''.rs'') fs"

definition all_occurrences :: "directory \<Rightarrow> (string \<times> StructMatch) list" where
  "all_occurrences fs = concat (map file_occurrences (rust_files fs))"

lemma process_match_upper:
  "first_isupper (m_name m) \<Longrightarrow>
     process_match fname us acc m
       = (dict_append (m_name m) (occurrence_of fname us m) (fst acc), snd acc)"
  by (simp add: process_match_def occurrence_of_def)

lemma process_match_lower:
  "\<not> first_isupper (m_name m) \<Longrightarrow>
     process_match fname us acc m = (fst acc, snd acc @ [occurrence_of fname us m])"
  by (simp add: process_match_def occurrence_of_def)

lemma foldl_process_match:
  "foldl (process_match fname us) acc ms
     = (foldl (\<lambda>d x. dict_append (fst x) (snd x) d) (fst acc)
          (filter (\<lambda>x. first_isupper (fst x))
             (map (\<lambda>m. (m_name m, occurrence_of fname us m)) ms)),
        snd acc @ map snd (filter (\<lambda>x. \<not> first_isupper (fst x))
             (map (\<lambda>m. (m_name m, occurrence_of fname us m)) ms)))"
proof (induction ms arbitrary: acc)
  case Nil
  then show ?case by simp
next
  case (Cons m ms)
  show ?case
    by (cases "first_isupper (m_name m)")
      (simp_all add: Cons.IH process_match_upper process_match_lower)
qed

lemma scan_file_eq:
  "fst (scan_file acc f)
     = foldl (\<lambda>d x. dict_append (fst x) (snd x) d) (fst acc)
         (filter (\<lambda>x. first_isupper (fst x)) (file_occurrences f))"
  "fst (snd (scan_file acc f)) = (fst (snd acc))(fst f \<mapsto> snd f)"
  "snd (snd (scan_file acc f))
     = snd (snd acc) @ map snd (filter (\<lambda>x. \<not> first_isupper (fst x)) (file_occurrences f))"
  by (simp_all add: scan_file_def foldl_process_match file_occurrences_def Let_def)

lemma foldl_scan_file:
  "foldl scan_file acc files
     = (foldl (\<lambda>d x. dict_append (fst x) (snd x) d) (fst acc)
          (filter (\<lambda>x. first_isupper (fst x)) (concat (map file_occurrences files))),
        foldl (\<lambda>m f. m(fst f \<mapsto> snd f)) (fst (snd acc)) files,
        snd (snd acc)
          @ map snd (filter (\<lambda>x. \<not> first_isupper (fst x)) (concat (map file_occurrences files))))"
proof (induction files arbitrary: acc)
  case Nil
  then show ?case by simp
next
  case (Cons f files)
  show ?case
    by (simp add: Cons.IH scan_file_eq)
qed

lemma scan_rust_files_eq:
  "scan_rust_files fs
     = (foldl (\<lambda>d x. dict_append (fst x) (snd x) d) []
          (filter (\<lambda>x. first_isupper (fst x)) (all_occurrences fs)),
        foldl (\<lambda>m f. m(fst f \<mapsto> snd f)) Map.empty (rust_files fs),
        map snd (filter (\<lambda>x. \<not> first_isupper (fst x)) (all_occurrences fs)))"
  by (simp add: scan_rust_files_def foldl_scan_file all_occurrences_def rust_files_def)

lemma scan_type_locations_get:
  "dict_get (fst (scan_rust_files fs)) n
     = map snd (filter (\<lambda>x. fst x = n \<and> first_isupper n) (all_occurrences fs))"
proof -
  have "filter (\<lambda>x. fst x = n) (filter (\<lambda>x. first_isupper (fst x)) (all_occurrences fs))
          = filter (\<lambda>x. fst x = n \<and> first_isupper n) (all_occurrences fs)"
    by (auto intro: filter_cong)
  then show ?thesis
    by (simp add: scan_rust_files_eq dict_fill_get dict_get_Nil)
qed

lemma scan_type_locations_distinct: "distinct (map fst (fst (scan_rust_files fs)))"
  by (simp add: scan_rust_files_eq dict_fill_distinct)

lemma scan_type_locations_nonempty: "\<forall>e\<in>set (fst (scan_rust_files fs)). snd e \<noteq> []"
proof -
  have "\<forall>e\<in>set ([] :: type_locations). snd e \<noteq> []" by simp
  from dict_fill_nonempty [OF this] show ?thesis
    by (simp add: scan_rust_files_eq)
qed

lemma scan_lowercase_matches:
  "snd (snd (scan_rust_files fs))
     = map snd (filter (\<lambda>x. \<not> first_isupper (fst x)) (all_occurrences fs))"
  by (simp add: scan_rust_files_eq)

lemma scan_all_values:
  "mset (concat (map snd (fst (scan_rust_files fs))) @ snd (snd (scan_rust_files fs)))
     = mset (map snd (all_occurrences fs))"
proof -
  have "mset (map snd (filter (\<lambda>x. first_isupper (fst x)) (all_occurrences fs)))
          + mset (map snd (filter (\<lambda>x. \<not> first_isupper (fst x)) (all_occurrences fs)))
        = mset (map snd (all_occurrences fs))"
    by (simp flip: image_mset_union)
  then show ?thesis
    by (simp add: scan_rust_files_eq dict_fill_values)
qed

lemma foldl_map_upd:
  "distinct (map fst files) \<Longrightarrow> (f, s) \<in> set files \<Longrightarrow>
     foldl (\<lambda>m f. m(fst f \<mapsto> snd f)) m0 files f = Some s"
proof (induction files arbitrary: m0 rule: rev_induct)
  case Nil
  then show ?case by simp
next
  case (snoc x files)
  then show ?case
    by (cases "x = (f, s)") (auto simp: rev_image_eqI)
qed

lemma scan_file_contents:
  assumes "distinct (map fst fs)" "(f, s) \<in> set fs" "endswith f ''.rs''"
  shows "fst (snd (scan_rust_files fs)) f = Some s"
proof -
  have "distinct (map fst (rust_files fs))"
    using assms(1) by (simp add: rust_files_def distinct_map_filter)
  moreover have "(f, s) \<in> set (rust_files fs)"
    using assms(2,3) by (simp add: rust_files_def)
  ultimately show ?thesis
    by (simp add: scan_rust_files_eq foldl_map_upd)
qed

section \<open>Every match has one occurrence\<close>

lemma finditer_types_starts_distinct: "distinct (map m_start (finditer_types pos s))"
proof -
  let ?ms = "finditer_types pos s"
  have "sorted_wrt (\<lambda>x y. m_end x \<le> m_start y) ?ms"
    using finditer_types_sorted [of pos s] by (simp add: sorted_wrt_map span_def)
  then have "sorted_wrt (\<lambda>x y. m_start x < m_start y) ?ms"
  proof (rule sorted_wrt_mono_rel [rotated])
    fix x y
    assume "x \<in> set ?ms" "m_end x \<le> m_start y"
    with finditer_types_bounds [of x pos s] show "m_start x < m_start y" by simp
  qed
  then have "sorted_wrt (<) (map m_start ?ms)"
    by (simp add: sorted_wrt_map)
  then show ?thesis
    by (simp add: strict_sorted_iff)
qed

definition occ_key :: "string \<times> StructMatch \<Rightarrow> string \<times> nat" where
  \<comment> \<open>an occurrence is identified by its file and its start offset\<close>
  "occ_key x = (filename (snd x), start_pos (snd x))"

lemma file_occurrences_keys:
  "map occ_key (file_occurrences f) = map (\<lambda>m. (fst f, m_start m)) (finditer_types 0 (snd f))"
  by (simp add: file_occurrences_def occ_key_def occurrence_of_def)

lemma file_occurrences_distinct: "distinct (map occ_key (file_occurrences f))"
proof -
  have "map occ_key (file_occurrences f)
          = map (Pair (fst f)) (map m_start (finditer_types 0 (snd f)))"
    by (simp add: file_occurrences_keys)
  moreover have "distinct (map (Pair (fst f)) (map m_start (finditer_types 0 (snd f))))"
    using finditer_types_starts_distinct [of 0 "snd f"]
    by (subst distinct_map) (auto simp: inj_on_def)
  ultimately show ?thesis by simp
qed

lemma file_occurrences_filename:
  "x \<in> set (file_occurrences e) \<Longrightarrow> fst (occ_key x) = fst e"
  by (auto simp: file_occurrences_def occ_key_def occurrence_of_def)

lemma concat_occurrences_distinct:
  "distinct (map fst files) \<Longrightarrow> distinct (map occ_key (concat (map file_occurrences files)))"
proof (induction files)
  case Nil
  then show ?case by simp
next
  case (Cons f files)
  have "occ_key x \<noteq> occ_key y"
    if "x \<in> set (file_occurrences f)" "y \<in> set (concat (map file_occurrences files))" for x y
  proof -
    from that(2) obtain e where e: "e \<in> set files" "y \<in> set (file_occurrences e)"
      by auto
    have "fst (occ_key x) = fst f"
      using that(1) by (rule file_occurrences_filename)
    moreover have "fst (occ_key y) = fst e"
      using e(2) by (rule file_occurrences_filename)
    moreover have "fst f \<noteq> fst e"
      using Cons.prems e(1) by auto
    ultimately show ?thesis by auto
  qed
  then have "occ_key ` set (file_occurrences f)
      \<inter> occ_key ` set (concat (map file_occurrences files)) = {}"
    by blast
  moreover have "distinct (map occ_key (concat (map file_occurrences files)))"
    using Cons by simp
  ultimately show ?case
    using file_occurrences_distinct [of f] by simp
qed

lemma all_occurrences_distinct:
  "distinct (map fst fs) \<Longrightarrow> distinct (map occ_key (all_occurrences fs))"
  unfolding all_occurrences_def rust_files_def
  by (intro concat_occurrences_distinct) (simp add: distinct_map_filter)

lemma all_occurrences_member:
  assumes "(f, s) \<in> set fs" "endswith f ''.rs''" "m \<in> set (finditer_types 0 s)"
  shows "(m_name m, occurrence_of f (type_usages s) m) \<in> set (all_occurrences fs)"
proof -
  have "(f, s) \<in> set (rust_files fs)"
    using assms(1,2) by (simp add: rust_files_def)
  moreover have "(m_name m, occurrence_of f (type_usages s) m) \<in> set (file_occurrences (f, s))"
    using assms(3) by (simp add: file_occurrences_def)
  ultimately show ?thesis
    unfolding all_occurrences_def by auto
qed

lemma all_occurrences_origin:
  assumes "x \<in> set (all_occurrences fs)"
  shows "\<exists>f s m. (f, s) \<in> set fs \<and> endswith f ''.rs'' \<and> m \<in> set (finditer_types 0 s)
           \<and> x = (m_name m, occurrence_of f (type_usages s) m)"
proof -
  from assms obtain e where e: "e \<in> set (rust_files fs)" "x \<in> set (file_occurrences e)"
    by (auto simp: all_occurrences_def)
  then obtain m where "m \<in> set (finditer_types 0 (snd e))"
    "x = (m_name m, occurrence_of (fst e) (type_usages (snd e)) m)"
    by (auto simp: file_occurrences_def)
  moreover from e(1) have "(fst e, snd e) \<in> set fs" "endswith (fst e) ''.rs''"
    by (simp_all add: rust_files_def)
  ultimately show ?thesis by blast
qed

lemma all_occurrences_unique:
  assumes "distinct (map fst fs)" "(f, s) \<in> set fs" "endswith f ''.rs''"
    "m \<in> set (finditer_types 0 s)" "x \<in> set (all_occurrences fs)"
    "filename (snd x) = f" "start_pos (snd x) = m_start m"
  shows "x = (m_name m, occurrence_of f (type_usages s) m)"
proof -
  let ?y = "(m_name m, occurrence_of f (type_usages s) m)"
  have y: "?y \<in> set (all_occurrences fs)"
    using assms(2-4) by (rule all_occurrences_member)
  have "occ_key x = occ_key ?y"
    using assms(6,7) by (simp add: occ_key_def occurrence_of_def)
  moreover have "inj_on occ_key (set (all_occurrences fs))"
    using all_occurrences_distinct [OF assms(1)] by (simp add: distinct_map)
  ultimately show ?thesis
    using assms(5) y by (auto dest: inj_onD)
qed

lemma filter_key_length_one:
  "distinct (map g xs) \<Longrightarrow> x \<in> set xs \<Longrightarrow> length (filter (\<lambda>y. g y = g x) xs) = 1"
proof (induction xs)
  case Nil
  then show ?case by simp
next
  case (Cons a xs)
  show ?case
  proof (cases "g a = g x")
    case True
    with Cons.prems have "g x \<notin> g ` set xs" by simp
    then have "\<forall>y\<in>set xs. g y \<noteq> g x" by (metis imageI)
    then have "filter (\<lambda>y. g y = g x) xs = []" by (simp add: filter_empty_conv)
    with True show ?thesis by simp
  next
    case False
    with Cons show ?thesis by auto
  qed
qed

section \<open>C7: the naming partition\<close>

text \<open>
  C7. In a directory (its file names pairwise different), take a declaration that the
  Declaration Matcher finds in a \<^verbatim>\<open>.rs\<close> file. Among all the occurrences that the scan
  collects, in the lists of \<^verbatim>\<open>type_locations\<close> and in \<^verbatim>\<open>lowercase_matches\<close> together, exactly
  one is the occurrence of this declaration (same file, same start offset). It stands in
  \<^verbatim>\<open>type_locations\<close>, under the declared name, exactly when the first character of the name
  is an uppercase letter, and in \<^verbatim>\<open>lowercase_matches\<close> exactly when it is not.
\<close>

theorem naming_partition:
  assumes "distinct (map fst fs)" "(f, s) \<in> set fs" "endswith f ''.rs''"
    "m \<in> set (finditer_types 0 s)"
  shows "length (filter (\<lambda>x. filename x = f \<and> start_pos x = m_start m)
                  (concat (map snd (fst (scan_rust_files fs))) @ snd (snd (scan_rust_files fs))))
           = 1
       \<and> ((\<exists>e\<in>set (fst (scan_rust_files fs)). fst e = m_name m \<and>
              (\<exists>x\<in>set (snd e). filename x = f \<and> start_pos x = m_start m))
            \<longleftrightarrow> first_isupper (m_name m))
       \<and> ((\<exists>e\<in>set (fst (scan_rust_files fs)).
              (\<exists>x\<in>set (snd e). filename x = f \<and> start_pos x = m_start m))
            \<longleftrightarrow> first_isupper (m_name m))
       \<and> ((\<exists>x\<in>set (snd (snd (scan_rust_files fs))). filename x = f \<and> start_pos x = m_start m)
            \<longleftrightarrow> \<not> first_isupper (m_name m))"
proof -
  let ?tl = "fst (scan_rust_files fs)" and ?lm = "snd (snd (scan_rust_files fs))"
  let ?Q = "\<lambda>x. filename x = f \<and> start_pos x = m_start m"
  let ?y = "(m_name m, occurrence_of f (type_usages s) m)"
  have y: "?y \<in> set (all_occurrences fs)"
    using assms(2-4) by (rule all_occurrences_member)
  have Qy: "?Q (snd ?y)"
    by (simp add: occurrence_of_def)
  have uniq: "x = ?y" if "x \<in> set (all_occurrences fs)" "?Q (snd x)" for x
    using all_occurrences_unique [OF assms that(1)] that(2) by simp
  \<comment> \<open>exactly one occurrence\<close>
  have "length (filter ?Q (concat (map snd ?tl) @ ?lm))
          = size (filter_mset ?Q (mset (concat (map snd ?tl) @ ?lm)))"
    by (simp only: mset_filter [symmetric] size_mset)
  also have "\<dots> = size (filter_mset ?Q (mset (map snd (all_occurrences fs))))"
    by (simp only: scan_all_values)
  also have "\<dots> = length (filter ?Q (map snd (all_occurrences fs)))"
    by (simp only: mset_filter [symmetric] size_mset)
  also have "\<dots> = length (filter (\<lambda>x. occ_key x = occ_key ?y) (all_occurrences fs))"
    by (simp add: filter_map o_def occ_key_def occurrence_of_def)
  also have "\<dots> = 1"
    using all_occurrences_distinct [OF assms(1)] y by (rule filter_key_length_one)
  finally have one: "length (filter ?Q (concat (map snd ?tl) @ ?lm)) = 1" .
  \<comment> \<open>where it stands\<close>
  have in_tl: "first_isupper (fst x)" "x \<in> set (all_occurrences fs)" "fst x = fst e"
    if "e \<in> set ?tl" "oc \<in> set (snd e)" "x = (fst e, oc)" for e oc x
  proof -
    have "snd e = dict_get ?tl (fst e)"
      using scan_type_locations_distinct [of fs] that(1)
      by (metis dict_get_entry prod.collapse)
    with that(2) have "oc \<in> snd ` set (filter (\<lambda>x. fst x = fst e \<and> first_isupper (fst e))
                                    (all_occurrences fs))"
      by (simp add: scan_type_locations_get)
    then obtain z where "z \<in> set (all_occurrences fs)" "fst z = fst e" "first_isupper (fst e)"
      "oc = snd z"
      by auto
    moreover from this that(3) have "x = z"
      by (simp add: prod_eq_iff)
    ultimately show "first_isupper (fst x)" "x \<in> set (all_occurrences fs)" "fst x = fst e"
      by simp_all
  qed
  have tl_upper: "first_isupper (m_name m)"
    if "e \<in> set ?tl" "oc \<in> set (snd e)" "?Q oc" for e oc
  proof -
    from in_tl [OF that(1,2) refl] uniq [of "(fst e, oc)"] that(3)
    show ?thesis by auto
  qed
  have upper_tl: "\<exists>e\<in>set ?tl. fst e = m_name m \<and> (\<exists>x\<in>set (snd e). ?Q x)"
    if "first_isupper (m_name m)"
  proof -
    have "snd ?y \<in> set (dict_get ?tl (m_name m))"
      using y that by (force simp: scan_type_locations_get)
    moreover from this have "(m_name m, dict_get ?tl (m_name m)) \<in> set ?tl"
      using scan_type_locations_nonempty [of fs] by (intro dict_entry_get) auto
    ultimately show ?thesis
      using Qy by force
  qed
  have lm_iff: "(\<exists>x\<in>set ?lm. ?Q x) \<longleftrightarrow> \<not> first_isupper (m_name m)"
  proof
    assume "\<exists>x\<in>set ?lm. ?Q x"
    then obtain z where "z \<in> set (all_occurrences fs)" "\<not> first_isupper (fst z)" "?Q (snd z)"
      by (auto simp: scan_lowercase_matches)
    with uniq [of z] show "\<not> first_isupper (m_name m)" by auto
  next
    assume "\<not> first_isupper (m_name m)"
    with y have "snd ?y \<in> set ?lm"
      by (force simp: scan_lowercase_matches)
    with Qy show "\<exists>x\<in>set ?lm. ?Q x" by blast
  qed
  show ?thesis
    using one tl_upper upper_tl lm_iff by blast
qed

theorem naming_partition_witness:
  "distinct (map fst [(''a.rs'', example_text)])
   \<and> endswith ''a.rs'' ''.rs''
   \<and> \<lparr>m_start = 6, m_end = 383, m_name = ''Bar'', m_text = bar_decl\<rparr>
        \<in> set (finditer_types 0 example_text)
   \<and> \<lparr>m_start = 383, m_end = 782, m_name = ''helper'', m_text = helper_decl\<rparr>
        \<in> set (finditer_types 0 example_text)
   \<and> length (filter (\<lambda>x. filename x = ''a.rs'' \<and> start_pos x = 6)
         (concat (map snd (fst (scan_rust_files [(''a.rs'', example_text)])))
            @ snd (snd (scan_rust_files [(''a.rs'', example_text)])))) = 1
   \<and> (\<exists>e\<in>set (fst (scan_rust_files [(''a.rs'', example_text)])). fst e = ''Bar'' \<and>
          (\<exists>x\<in>set (snd e). filename x = ''a.rs'' \<and> start_pos x = 6))
   \<and> (\<exists>x\<in>set (snd (snd (scan_rust_files [(''a.rs'', example_text)]))).
          filename x = ''a.rs'' \<and> start_pos x = 383)"
proof -
  have d: "distinct (map fst [(''a.rs'', example_text)])"
    by simp
  have f: "(''a.rs'', example_text) \<in> set [(''a.rs'', example_text)]"
    by simp
  have e: "endswith ''a.rs'' ''.rs''"
    by (simp add: endswith_def)
  have m1: "\<lparr>m_start = 6, m_end = 383, m_name = ''Bar'', m_text = bar_decl\<rparr>
              \<in> set (finditer_types 0 example_text)"
    by (simp add: finditer_types_example)
  have m2: "\<lparr>m_start = 383, m_end = 782, m_name = ''helper'', m_text = helper_decl\<rparr>
              \<in> set (finditer_types 0 example_text)"
    by (simp add: finditer_types_example)
  have u: "first_isupper ''Bar''" "\<not> first_isupper ''helper''"
    by (simp_all add: first_isupper_def isupper_def)
  note n1 = naming_partition [OF d f e m1, unfolded type_match.select_convs]
  note n2 = naming_partition [OF d f e m2, unfolded type_match.select_convs]
  from n1 u(1) have
    "length (filter (\<lambda>x. filename x = ''a.rs'' \<and> start_pos x = 6)
         (concat (map snd (fst (scan_rust_files [(''a.rs'', example_text)])))
            @ snd (snd (scan_rust_files [(''a.rs'', example_text)])))) = 1"
    "\<exists>e\<in>set (fst (scan_rust_files [(''a.rs'', example_text)])). fst e = ''Bar'' \<and>
          (\<exists>x\<in>set (snd e). filename x = ''a.rs'' \<and> start_pos x = 6)"
    by blast+
  moreover from n2 u(2) have
    "\<exists>x\<in>set (snd (snd (scan_rust_files [(''a.rs'', example_text)]))).
          filename x = ''a.rs'' \<and> start_pos x = 383"
    by blast
  ultimately show ?thesis
    using d e m1 m2 by (simp only: simp_thms)
qed

section \<open>Where the occurrences and the deletion plan come from\<close>

lemma finditer_types_blank_line:
  assumes "m \<in> set (finditer_types 0 s)"
  shows "take 5 (drop (m_start m) s) = ''\<newline>\<newline>// ''"
proof -
  have "m_text m = take (m_end m - m_start m) (drop (m_start m) s)"
    using finditer_types_text [OF assms] by simp
  moreover have "take 5 (m_text m) = ''\<newline>\<newline>// ''"
    using assms by (rule finditer_types_head)
  ultimately have eq: "take 5 (take (m_end m - m_start m) (drop (m_start m) s)) = ''\<newline>\<newline>// ''"
    by simp
  then have "length (take 5 (take (m_end m - m_start m) (drop (m_start m) s))) = 5"
    by simp
  then have "5 \<le> m_end m - m_start m"
    by simp
  with eq show ?thesis
    by (simp add: min_def)
qed

lemma scan_occurrence_origin:
  assumes "distinct (map fst fs)" "(f, s) \<in> set fs"
    "x \<in> set (concat (map snd (fst (scan_rust_files fs))) @ snd (snd (scan_rust_files fs)))"
    "filename x = f"
  shows "\<exists>m\<in>set (finditer_types 0 s). start_pos x = m_start m \<and> end_pos x = m_end m
           \<and> content x = m_text m"
proof -
  have "x \<in># mset (concat (map snd (fst (scan_rust_files fs))) @ snd (snd (scan_rust_files fs)))"
    using assms(3) by simp
  then have "x \<in> snd ` set (all_occurrences fs)"
    by (simp only: scan_all_values) simp
  then obtain y where y: "y \<in> set (all_occurrences fs)" "x = snd y"
    by blast
  from all_occurrences_origin [OF y(1)] obtain f' s' m where
    m: "(f', s') \<in> set fs" "m \<in> set (finditer_types 0 s')"
      "y = (m_name m, occurrence_of f' (type_usages s') m)"
    by blast
  with y(2) assms(4) have "f' = f"
    by (simp add: occurrence_of_def)
  with m(1) assms(1,2) have "s' = s"
    by (metis eq_key_imp_eq_value)
  with m y(2) show ?thesis
    by (auto simp: occurrence_of_def)
qed

lemma file_positions_get:
  "dict_get (file_positions ms) f
     = map (\<lambda>x. (start_pos x, end_pos x)) (filter (\<lambda>x. filename x = f) ms)"
  by (simp add: file_positions_def dict_fill_get dict_get_Nil)

lemma file_positions_distinct: "distinct (map fst (file_positions ms))"
  by (simp add: file_positions_def dict_fill_distinct)

lemma file_positions_nonempty: "\<forall>e\<in>set (file_positions ms). snd e \<noteq> []"
proof -
  have "\<forall>e\<in>set ([] :: (string \<times> (nat \<times> nat) list) list). snd e \<noteq> []" by simp
  from dict_fill_nonempty [OF this] show ?thesis
    by (simp add: file_positions_def)
qed

lemma file_positions_entry:
  "e \<in> set (file_positions ms) \<Longrightarrow>
     snd e = map (\<lambda>x. (start_pos x, end_pos x)) (filter (\<lambda>x. filename x = fst e) ms)"
  using file_positions_distinct [of ms] file_positions_get [of ms "fst e"]
  by (metis dict_get_entry prod.collapse)

section \<open>C10: a declaration is matched only after a blank line\<close>

text \<open>
  C10 (as amended). The span of every match of the Declaration Matcher starts with two newline
  characters, and the comment line of the declaration follows them: the declaration proper
  starts two characters after the start of the span. So a declaration whose comment line
  stands at offset 0 of the file, or after a single newline (or anywhere else that two
  newlines do not precede), is never matched as a declaration of its own. Every occurrence
  that the scan collects for a file (in \<^verbatim>\<open>type_locations\<close> or in \<^verbatim>\<open>lowercase_matches\<close>) is the
  occurrence of a match, and every span of the deletion plan, built from promoted entries of
  \<^verbatim>\<open>type_locations\<close> and from \<^verbatim>\<open>lowercase_matches\<close>, is the span of an occurrence: no
  occurrence and no span of the plan starts at such a declaration, so it is never classified,
  promoted or removed under its own name. Its text can still lie inside the span of an
  earlier declaration and go with it; that is not excluded here.
\<close>

theorem leading_blank_line_required:
  assumes "distinct (map fst fs)" "(f, s) \<in> set fs"
  shows "(\<forall>m\<in>set (finditer_types 0 s). take 5 (drop (m_start m) s) = ''\<newline>\<newline>// '')
       \<and> (\<forall>x\<in>set (concat (map snd (fst (scan_rust_files fs))) @ snd (snd (scan_rust_files fs))).
             filename x = f \<longrightarrow> take 5 (drop (start_pos x) s) = ''\<newline>\<newline>// '')
       \<and> (\<forall>d. set d \<subseteq> set (fst (scan_rust_files fs)) \<longrightarrow>
             (\<forall>e\<in>set (file_positions (concat (map snd d) @ snd (snd (scan_rust_files fs)))).
                fst e = f \<longrightarrow> (\<forall>p\<in>set (snd e). take 5 (drop (fst p) s) = ''\<newline>\<newline>// '')))
       \<and> (\<forall>pre rest. s = pre @ rest \<and> \<not> (\<exists>u. pre = u @ ''\<newline>\<newline>'') \<longrightarrow>
             (\<forall>m\<in>set (finditer_types 0 s). m_start m + 2 \<noteq> length pre)
           \<and> (\<forall>x\<in>set (concat (map snd (fst (scan_rust_files fs)))
                         @ snd (snd (scan_rust_files fs))).
                 filename x = f \<longrightarrow> start_pos x + 2 \<noteq> length pre))"
proof -
  let ?tl = "fst (scan_rust_files fs)" and ?lm = "snd (snd (scan_rust_files fs))"
  have a: "take 5 (drop (m_start m) s) = ''\<newline>\<newline>// ''" if "m \<in> set (finditer_types 0 s)" for m
    using that by (rule finditer_types_blank_line)
  have b: "take 5 (drop (start_pos x) s) = ''\<newline>\<newline>// ''"
    if "x \<in> set (concat (map snd ?tl) @ ?lm)" "filename x = f" for x
    using scan_occurrence_origin [OF assms that] a by auto
  have c: "take 5 (drop (fst p) s) = ''\<newline>\<newline>// ''"
    if "set d \<subseteq> set ?tl" "e \<in> set (file_positions (concat (map snd d) @ ?lm))"
      "fst e = f" "p \<in> set (snd e)" for d e p
  proof -
    from file_positions_entry [OF that(2)] that(3,4) obtain x where
      x: "x \<in> set (concat (map snd d) @ ?lm)" "filename x = f" "p = (start_pos x, end_pos x)"
      by auto
    with that(1) have "x \<in> set (concat (map snd ?tl) @ ?lm)"
      by auto
    from b [OF this x(2)] x(3) show ?thesis by simp
  qed
  have key: "k + 2 \<noteq> length pre"
    if "s = pre @ rest" "\<not> (\<exists>u. pre = u @ ''\<newline>\<newline>'')" "take 5 (drop k s) = ''\<newline>\<newline>// ''"
    for pre rest k
  proof
    assume k: "k + 2 = length pre"
    then have "drop k s = drop k pre @ rest" "length (drop k pre) = 2"
      using that(1) by simp_all
    then have "take 2 (take 5 (drop k s)) = drop k pre"
      by simp
    with that(3) have "drop k pre = ''\<newline>\<newline>''"
      by simp
    then have "pre = take k pre @ ''\<newline>\<newline>''"
      by (metis append_take_drop_id)
    with that(2) show False by blast
  qed
  show ?thesis
    using a b c key by (intro conjI ballI allI impI) blast+
qed

theorem leading_blank_line_required_witness:
  "distinct (map fst [(''a.rs'', example_text)])
   \<and> take 5 (drop 6 example_text) = ''\<newline>\<newline>// ''
   \<and> list_all (\<lambda>m. m_start m + 2 \<noteq> length ''use x;\<newline>'')
        (finditer_types 0 (''use x;\<newline>'' @ drop 2 bar_decl))"
proof -
  have d: "distinct (map fst [(''a.rs'', example_text)])"
    by simp
  have f: "(''a.rs'', example_text) \<in> set [(''a.rs'', example_text)]"
    by simp
  have m: "\<lparr>m_start = 6, m_end = 383, m_name = ''Bar'', m_text = bar_decl\<rparr>
              \<in> set (finditer_types 0 example_text)"
    by (simp add: finditer_types_example)
  from leading_blank_line_required [OF d f] m
  have "take 5 (drop (m_start \<lparr>m_start = 6, m_end = 383, m_name = ''Bar'', m_text = bar_decl\<rparr>)
          example_text) = ''\<newline>\<newline>// ''"
    by blast
  then have one: "take 5 (drop 6 example_text) = ''\<newline>\<newline>// ''"
    by simp
  have d': "distinct (map fst [(''b.rs'', ''use x;\<newline>'' @ drop 2 bar_decl)])"
    by simp
  have f': "(''b.rs'', ''use x;\<newline>'' @ drop 2 bar_decl)
              \<in> set [(''b.rs'', ''use x;\<newline>'' @ drop 2 bar_decl)]"
    by simp
  have "\<not> (\<exists>u. ''use x;\<newline>'' = u @ ''\<newline>\<newline>'')"
    by (auto simp: append_eq_Cons_conv Cons_eq_append_conv)
  with leading_blank_line_required [OF d' f']
  have "\<forall>m\<in>set (finditer_types 0 (''use x;\<newline>'' @ drop 2 bar_decl)).
          m_start m + 2 \<noteq> length ''use x;\<newline>''"
    by blast
  then have "list_all (\<lambda>m. m_start m + 2 \<noteq> length ''use x;\<newline>'')
        (finditer_types 0 (''use x;\<newline>'' @ drop 2 bar_decl))"
    by (simp only: list_all_iff)
  with d one show ?thesis by (simp only: simp_thms)
qed

section \<open>C10: a declaration swallowed by the one before it\<close>

definition swallowed_text :: string where
  \<comment> \<open>a declaration \<^verbatim>\<open>A\<close> without a closing idiom of its own; after a single newline, the
      complete declaration \<^verbatim>\<open>B\<close>\<close>
  "swallowed_text =
     ''use x;\<newline>\<newline>// A ...\<newline>'' @ header @ ''pub struct A {\<newline>''
       @ drop 2 (decl_block ''B'' ''pub enum'' '' B {\<newline>}\<newline>'')"

lemma swallowed_b_alone:
  "map (\<lambda>m. (m_start m, m_end m, m_name m))
     (finditer_types 0 (decl_block ''B'' ''pub enum'' '' B {\<newline>}\<newline>'')) = [(0, 335, ''B'')]"
  by code_simp

lemma swallowed_matches:
  "map (\<lambda>m. (m_start m, m_end m, m_name m)) (finditer_types 0 swallowed_text)
     = [(6, 660, ''A'')]"
  by code_simp

lemma swallowed_offset:
  "length (''use x;\<newline>\<newline>// A ...\<newline>'' @ header @ ''pub struct A {\<newline>'') = 327"
  by (simp add: length_header)

lemma swallowed_main:
  "main [(''a.rs'', swallowed_text)] 0
     = ([(''a.rs'', ''use x;''), (''common.rs'', ''\<newline>'' @ drop 6 swallowed_text @ ''\<newline>'')], 0)"
  by code_simp

text \<open>
  The claim as stated goes on: such a declaration is therefore never promoted or removed.
  That fails when the declaration before it has no closing idiom of its own. In
  \<open>swallowed_text\<close> the declaration \<^verbatim>\<open>B\<close> is complete and stands at offset 327 after a single
  newline (alone, after a blank line, it is matched). The lazy \<^verbatim>\<open>.*?\<close> of the match of \<^verbatim>\<open>A\<close> runs
  to the closing idiom of \<^verbatim>\<open>B\<close>: the only match is \<^verbatim>\<open>A\<close>, from 6 to 660, and a run at threshold
  0 removes the text of \<^verbatim>\<open>B\<close> from the file and copies it into \<^verbatim>\<open>common.rs\<close> inside the block
  of \<^verbatim>\<open>A\<close>.
\<close>

theorem swallowed_declaration_counterexample:
  "map (\<lambda>m. (m_start m, m_end m, m_name m))
     (finditer_types 0 (decl_block ''B'' ''pub enum'' '' B {\<newline>}\<newline>'')) = [(0, 335, ''B'')]
   \<and> map (\<lambda>m. (m_start m, m_end m, m_name m)) (finditer_types 0 swallowed_text)
       = [(6, 660, ''A'')]
   \<and> length (''use x;\<newline>\<newline>// A ...\<newline>'' @ header @ ''pub struct A {\<newline>'') = 327
   \<and> main [(''a.rs'', swallowed_text)] 0
       = ([(''a.rs'', ''use x;''), (''common.rs'', ''\<newline>'' @ drop 6 swallowed_text @ ''\<newline>'')], 0)"
  using swallowed_b_alone swallowed_matches swallowed_offset swallowed_main
  by (simp only: simp_thms)

section \<open>C2: the promotion threshold\<close>

lemma file_occurrences_usage:
  assumes "first_isupper n"
  shows "sum_list (map (\<lambda>x. usage_count (snd x)) (filter (\<lambda>x. fst x = n) (file_occurrences f)))
           = length (filter (\<lambda>m. m_name m = n) (finditer_types 0 (snd f)))
               * count_list (type_usages (snd f)) n"
proof -
  have "sum_list (map (\<lambda>x. usage_count (snd x)) (filter (\<lambda>x. fst x = n) (map g ms)))
          = length (filter (\<lambda>m. m_name m = n) ms) * count_list us n"
    if "g = (\<lambda>m. (m_name m, occurrence_of fname us m))" for g ms fname us
    using that assms by (induction ms) (auto simp: occurrence_of_def)
  then show ?thesis
    by (simp add: file_occurrences_def)
qed

lemma concat_occurrences_usage:
  assumes "first_isupper n"
  shows "sum_list (map (\<lambda>x. usage_count (snd x))
            (filter (\<lambda>x. fst x = n) (concat (map file_occurrences files))))
           = sum_list (map (\<lambda>f. length (filter (\<lambda>m. m_name m = n) (finditer_types 0 (snd f)))
                                  * count_list (type_usages (snd f)) n) files)"
  by (induction files) (simp_all add: file_occurrences_usage [OF assms])

lemma scan_entry:
  assumes "e \<in> set (fst (scan_rust_files fs))"
  shows "first_isupper (fst e)"
    and "snd e = map snd (filter (\<lambda>x. fst x = fst e) (all_occurrences fs))"
proof -
  have get: "snd e = dict_get (fst (scan_rust_files fs)) (fst e)"
    using scan_type_locations_distinct [of fs] assms
    by (metis dict_get_entry prod.collapse)
  have "snd e \<noteq> []"
    using scan_type_locations_nonempty assms by blast
  with get show up: "first_isupper (fst e)"
    by (cases "first_isupper (fst e)") (simp_all add: scan_type_locations_get)
  with get show "snd e = map snd (filter (\<lambda>x. fst x = fst e) (all_occurrences fs))"
    by (simp add: scan_type_locations_get)
qed

text \<open>
  C2 (as amended). The threshold is any integer (\<^verbatim>\<open>int(args.typecount)\<close>). Every entry of the
  \<^verbatim>\<open>type_locations\<close> that a scan returns is an uppercase name with the occurrences of its
  declarations. Each occurrence records the number of field references to the name in its own
  file, so the total of the entry is the sum, over the scanned files, of the number of
  declarations of the name in the file times the number of field references to the name in
  that file: a file that refers to the name without declaring it adds nothing. The entry is
  in the dict of frequent types that \<^verbatim>\<open>print_summary\<close> returns if and only if this total is
  at least the threshold. A type with a total of 0 is not promoted at threshold 1 and is
  promoted exactly at the thresholds 0 and below.
\<close>

theorem promotion_threshold:
  assumes "e \<in> set (fst (scan_rust_files fs))"
  shows "first_isupper (fst e)
       \<and> total_usage (snd e)
           = int (sum_list (map (\<lambda>f. length (filter (\<lambda>m. m_name m = fst e)
                                                (finditer_types 0 (snd f)))
                                       * count_list (type_usages (snd f)) (fst e))
                             (rust_files fs)))
       \<and> ((\<exists>d. print_summary (fst (scan_rust_files fs)) (snd (snd (scan_rust_files fs)))
                  typecount = Some d \<and> e \<in> set d)
            \<longleftrightarrow> typecount \<le> total_usage (snd e))
       \<and> (total_usage (snd e) = 0 \<longrightarrow>
            \<not> (\<exists>d. print_summary (fst (scan_rust_files fs)) (snd (snd (scan_rust_files fs)))
                      1 = Some d \<and> e \<in> set d)
          \<and> ((\<exists>d. print_summary (fst (scan_rust_files fs)) (snd (snd (scan_rust_files fs)))
                      typecount = Some d \<and> e \<in> set d)
                \<longleftrightarrow> typecount \<le> 0))"
proof -
  note up = scan_entry(1) [OF assms]
  have "total_usage (snd e)
          = int (sum_list (map usage_count
                  (map snd (filter (\<lambda>x. fst x = fst e) (all_occurrences fs)))))"
    using scan_entry(2) [OF assms] by (simp only: total_usage_def)
  also have "\<dots> = int (sum_list (map (\<lambda>f. length (filter (\<lambda>m. m_name m = fst e)
                                                (finditer_types 0 (snd f)))
                                       * count_list (type_usages (snd f)) (fst e))
                             (rust_files fs)))"
    unfolding all_occurrences_def by (simp only: map_map o_def concat_occurrences_usage [OF up])
  finally have total: "total_usage (snd e)
          = int (sum_list (map (\<lambda>f. length (filter (\<lambda>m. m_name m = fst e)
                                                (finditer_types 0 (snd f)))
                                       * count_list (type_usages (snd f)) (fst e))
                             (rust_files fs)))" .
  have iff: "(\<exists>d. print_summary (fst (scan_rust_files fs)) (snd (snd (scan_rust_files fs)))
                  t = Some d \<and> e \<in> set d) \<longleftrightarrow> t \<le> total_usage (snd e)" for t
    using assms by (simp add: print_summary_member)
  have zero: "\<not> (\<exists>d. print_summary (fst (scan_rust_files fs)) (snd (snd (scan_rust_files fs)))
                      1 = Some d \<and> e \<in> set d)
          \<and> ((\<exists>d. print_summary (fst (scan_rust_files fs)) (snd (snd (scan_rust_files fs)))
                      typecount = Some d \<and> e \<in> set d)
                \<longleftrightarrow> typecount \<le> 0)"
    if "total_usage (snd e) = 0"
    using that by (simp add: iff)
  show ?thesis
    using up total iff [of typecount] zero by blast
qed

definition bar_only_text :: string where
  \<comment> \<open>a file that declares \<^verbatim>\<open>Bar\<close> and does not refer to it\<close>
  "bar_only_text = ''use x;'' @ bar_decl"

definition reference_text :: string where
  \<comment> \<open>a file that refers to \<^verbatim>\<open>Bar\<close> once, in a field line, and declares nothing that the
      Declaration Matcher finds\<close>
  "reference_text = ''pub struct Q {\<newline>'' @ [CHR 0x09] @ ''foo: Bar,\<newline>}\<newline>''"

lemma finditer_types_bar_only:
  "finditer_types 0 bar_only_text
     = [\<lparr>m_start = 6, m_end = 383, m_name = ''Bar'', m_text = bar_decl\<rparr>]"
proof -
  have "finditer_types 0 (''use x;'' @ bar_decl @ [])
          = finditer_types (0 + length ''use x;'') (bar_decl @ [])"
    by (rule finditer_types_skip) simp
  moreover have "0 + length ''use x;'' = 6"
    by simp
  ultimately have "finditer_types 0 bar_only_text = finditer_types 6 (bar_decl @ [])"
    by (simp only: bar_only_text_def append_Nil2)
  also have "\<dots> = [\<lparr>m_start = 6, m_end = 6 + length bar_decl, m_name = ''Bar'',
                       m_text = bar_decl\<rparr>]"
    unfolding bar_decl_def
    by (simp only: finditer_types_block [OF well_formed_bar] finditer_types.simps)
  finally show ?thesis
    by (simp add: length_bar_decl)
qed

lemma finditer_types_reference: "finditer_types 0 reference_text = []"
  by code_simp

lemma type_usages_bar_only: "type_usages bar_only_text = []"
  by code_simp

lemma type_usages_reference: "type_usages reference_text = [''Bar'']"
  by code_simp

lemma type_usages_example: "type_usages example_text = [''Bar'']"
  by code_simp

lemma first_isupper_Bar: "first_isupper ''Bar''"
  by (simp add: first_isupper_def isupper_def)

lemma first_isupper_helper: "\<not> first_isupper ''helper''"
  by (simp add: first_isupper_def isupper_def)

lemma scan_two_files:
  "scan_rust_files [(''a.rs'', bar_only_text), (''b.rs'', reference_text)]
     = ([(''Bar'', [\<lparr>filename = ''a.rs'', content = bar_decl, start_pos = 6, end_pos = 383,
                      usage_count = 0\<rparr>])],
        [''a.rs'' \<mapsto> bar_only_text, ''b.rs'' \<mapsto> reference_text], [])"
  by (simp add: scan_rust_files_eq all_occurrences_def rust_files_def endswith_def
      file_occurrences_def occurrence_of_def finditer_types_bar_only finditer_types_reference
      type_usages_bar_only first_isupper_Bar)

lemma scan_example:
  "scan_rust_files [(''a.rs'', example_text)]
     = ([(''Bar'', [\<lparr>filename = ''a.rs'', content = bar_decl, start_pos = 6, end_pos = 383,
                      usage_count = 1\<rparr>])],
        [''a.rs'' \<mapsto> example_text],
        [\<lparr>filename = ''a.rs'', content = helper_decl, start_pos = 383, end_pos = 782,
          usage_count = 0\<rparr>])"
  by (simp add: scan_rust_files_eq all_occurrences_def rust_files_def endswith_def
      file_occurrences_def occurrence_of_def finditer_types_example type_usages_example
      first_isupper_Bar first_isupper_helper)

theorem promotion_threshold_witness:
  "(''Bar'', [\<lparr>filename = ''a.rs'', content = bar_decl, start_pos = 6, end_pos = 383,
               usage_count = 1\<rparr>]) \<in> set (fst (scan_rust_files [(''a.rs'', example_text)]))
   \<and> total_usage [\<lparr>filename = ''a.rs'', content = bar_decl, start_pos = 6, end_pos = 383,
                     usage_count = 1\<rparr>] = 1
   \<and> (\<exists>d. print_summary (fst (scan_rust_files [(''a.rs'', example_text)]))
              (snd (snd (scan_rust_files [(''a.rs'', example_text)]))) 1 = Some d
          \<and> (''Bar'', [\<lparr>filename = ''a.rs'', content = bar_decl, start_pos = 6, end_pos = 383,
                         usage_count = 1\<rparr>]) \<in> set d)"
proof -
  let ?e = "(''Bar'', [\<lparr>filename = ''a.rs'', content = bar_decl, start_pos = 6, end_pos = 383,
                        usage_count = 1\<rparr>])"
  have mem: "?e \<in> set (fst (scan_rust_files [(''a.rs'', example_text)]))"
    by (simp add: scan_example)
  have total: "total_usage (snd ?e) = 1"
    by (simp add: total_usage_def)
  from promotion_threshold [OF mem, of 1] total
  have "\<exists>d. print_summary (fst (scan_rust_files [(''a.rs'', example_text)]))
              (snd (snd (scan_rust_files [(''a.rs'', example_text)]))) 1 = Some d \<and> ?e \<in> set d"
    by simp
  with mem total show ?thesis
    by (simp only: snd_conv simp_thms)
qed

text \<open>
  The claim as stated fails in two ways. In a directory where \<^verbatim>\<open>a.rs\<close> declares \<^verbatim>\<open>Bar\<close> and
  only \<^verbatim>\<open>b.rs\<close> refers to it, the reference is found in \<^verbatim>\<open>b.rs\<close> and recorded on no
  occurrence: the total is 0 and \<^verbatim>\<open>Bar\<close> is not promoted at threshold 1, although it is
  referenced once in the files where it is declared or referenced. And at the threshold -1
  this type without recorded usage is promoted, although the threshold is not 0.
\<close>

theorem promotion_threshold_counterexample:
  "type_usages reference_text = [''Bar'']
   \<and> fst (scan_rust_files [(''a.rs'', bar_only_text), (''b.rs'', reference_text)])
       = [(''Bar'', [\<lparr>filename = ''a.rs'', content = bar_decl, start_pos = 6, end_pos = 383,
                       usage_count = 0\<rparr>])]
   \<and> print_summary (fst (scan_rust_files [(''a.rs'', bar_only_text), (''b.rs'', reference_text)]))
        (snd (snd (scan_rust_files [(''a.rs'', bar_only_text), (''b.rs'', reference_text)]))) 1
       = None
   \<and> print_summary (fst (scan_rust_files [(''a.rs'', bar_only_text), (''b.rs'', reference_text)]))
        (snd (snd (scan_rust_files [(''a.rs'', bar_only_text), (''b.rs'', reference_text)])))
        (- 1)
       = Some [(''Bar'', [\<lparr>filename = ''a.rs'', content = bar_decl, start_pos = 6,
                            end_pos = 383, usage_count = 0\<rparr>])]"
  by (simp add: type_usages_reference scan_two_files print_summary_def total_usage_def)

section \<open>C3: violations are removed only when an uppercase type is promoted\<close>

definition helper_only_text :: string where
  \<comment> \<open>a file whose only declaration is the lowercase \<^verbatim>\<open>helper\<close>\<close>
  "helper_only_text = ''use x;'' @ helper_decl"

lemma finditer_types_helper_only:
  "finditer_types 0 helper_only_text
     = [\<lparr>m_start = 6, m_end = 405, m_name = ''helper'', m_text = helper_decl\<rparr>]"
proof -
  have "finditer_types 0 (''use x;'' @ helper_decl @ [])
          = finditer_types (0 + length ''use x;'') (helper_decl @ [])"
    by (rule finditer_types_skip) simp
  moreover have "0 + length ''use x;'' = 6"
    by simp
  ultimately have "finditer_types 0 helper_only_text = finditer_types 6 (helper_decl @ [])"
    by (simp only: helper_only_text_def append_Nil2)
  also have "\<dots> = [\<lparr>m_start = 6, m_end = 6 + length helper_decl, m_name = ''helper'',
                       m_text = helper_decl\<rparr>]"
    unfolding helper_decl_def
    by (simp only: finditer_types_block [OF well_formed_helper] finditer_types.simps)
  finally show ?thesis
    by (simp add: length_helper_decl)
qed

lemma scan_helper_only:
  "scan_rust_files [(''a.rs'', helper_only_text)]
     = ([], [''a.rs'' \<mapsto> helper_only_text],
        [\<lparr>filename = ''a.rs'', content = helper_decl, start_pos = 6, end_pos = 405,
          usage_count = 0\<rparr>])"
  by (simp add: scan_rust_files_eq all_occurrences_def rust_files_def endswith_def
      file_occurrences_def occurrence_of_def finditer_types_helper_only first_isupper_helper)

text \<open>
  C3 says that a lowercase declaration is always removed from its file, whatever the
  threshold and whether or not an uppercase type qualifies. The code does that only in a run
  where some uppercase type qualifies. When none does, \<^verbatim>\<open>print_summary\<close> leaves through its
  bare \<^verbatim>\<open>return\<close>, \<^verbatim>\<open>frequent_types\<close> is \<^verbatim>\<open>None\<close>, and \<^verbatim>\<open>remove_duplicates\<close> raises on
  \<^verbatim>\<open>None.values()\<close> before it writes a file: the run ends with exit code 1 and the file as
  it was. Here the directory holds one file with the lowercase declaration \<^verbatim>\<open>helper\<close> only;
  the declaration is in \<^verbatim>\<open>lowercase_matches\<close> and stays in the file, at threshold 1 and at
  threshold 0.
\<close>

theorem violation_not_removed:
  "snd (snd (scan_rust_files [(''a.rs'', helper_only_text)]))
     = [\<lparr>filename = ''a.rs'', content = helper_decl, start_pos = 6, end_pos = 405,
          usage_count = 0\<rparr>]
   \<and> print_summary (fst (scan_rust_files [(''a.rs'', helper_only_text)]))
        (snd (snd (scan_rust_files [(''a.rs'', helper_only_text)]))) 1 = None
   \<and> remove_duplicates (fst (snd (scan_rust_files [(''a.rs'', helper_only_text)]))) None
        (snd (snd (scan_rust_files [(''a.rs'', helper_only_text)])))
        [(''a.rs'', helper_only_text)]
       = ([(''a.rs'', helper_only_text)], Some AttributeError)
   \<and> main [(''a.rs'', helper_only_text)] 1 = ([(''a.rs'', helper_only_text)], 1)
   \<and> main [(''a.rs'', helper_only_text)] 0 = ([(''a.rs'', helper_only_text)], 1)"
  by (simp add: main_def scan_helper_only print_summary_def remove_duplicates_def)

section \<open>C1: a second run deletes a promoted declaration from the shared module\<close>

definition node_decl :: string where
  \<comment> \<open>a declaration that refers to itself: a tree node with a list of nodes\<close>
  "node_decl = decl_block ''Node'' ''pub struct''
     ('' Node {\<newline>'' @ [CHR 0x09] @ ''pub children: Vec<Node>,\<newline>}\<newline>\<newline>impl Node {\<newline>''
        @ [CHR 0x09] @ ''pub fn validate(&self) {\<newline>'')"

definition node_text :: string where
  "node_text = ''use x;'' @ node_decl"

lemma first_run:
  "main [(''a.rs'', node_text)] 1
     = ([(''a.rs'', ''use x;''), (''common.rs'', ''\<newline>'' @ node_decl @ ''\<newline>'')], 0)"
  by code_simp

lemma second_run:
  "main [(''a.rs'', ''use x;''), (''common.rs'', ''\<newline>'' @ node_decl @ ''\<newline>'')] 1
     = ([(''a.rs'', ''use x;''), (''common.rs'', ''\<newline>\<newline>'')], 0)"
  by code_simp

lemma third_run:
  "main [(''a.rs'', ''use x;''), (''common.rs'', ''\<newline>\<newline>'')] 1
     = ([(''a.rs'', ''use x;''), (''common.rs'', ''\<newline>\<newline>'')], 0)"
  by code_simp

text \<open>
  C1 says that a second run with the same threshold changes nothing. Here \<^verbatim>\<open>a.rs\<close> declares
  \<^verbatim>\<open>Node\<close> with the field \<^verbatim>\<open>children: Vec<Node>\<close>, and the threshold is the default 1. The
  first run moves the declaration into \<^verbatim>\<open>common.rs\<close>. The second run scans \<^verbatim>\<open>common.rs\<close> as
  any other file, finds \<^verbatim>\<open>Node\<close> there with one use, promotes it again (nothing is appended,
  the name is known) and then removes the declaration from \<^verbatim>\<open>common.rs\<close> itself: the shared
  module is rewritten and the declaration is in no file any more. Only the third run changes
  nothing.
\<close>

theorem second_run_changes_common:
  "main [(''a.rs'', node_text)] 1
     = ([(''a.rs'', ''use x;''), (''common.rs'', ''\<newline>'' @ node_decl @ ''\<newline>'')], 0)
   \<and> main (fst (main [(''a.rs'', node_text)] 1)) 1
     = ([(''a.rs'', ''use x;''), (''common.rs'', ''\<newline>\<newline>'')], 0)
   \<and> fst (main (fst (main [(''a.rs'', node_text)] 1)) 1) \<noteq> fst (main [(''a.rs'', node_text)] 1)
   \<and> main (fst (main (fst (main [(''a.rs'', node_text)] 1)) 1)) 1
     = ([(''a.rs'', ''use x;''), (''common.rs'', ''\<newline>\<newline>'')], 0)"
proof -
  have "node_decl \<noteq> []"
    by (simp add: node_decl_def decl_block_def)
  hence ne: "[(''a.rs'', ''use x;''), (''common.rs'', ''\<newline>\<newline>'')]
               \<noteq> [(''a.rs'', ''use x;''), (''common.rs'', ''\<newline>'' @ node_decl @ ''\<newline>'')]"
    by simp
  show ?thesis
    by (simp only: first_run second_run third_run fst_conv ne simp_thms)
qed

end
